theory Spec2Isabelle
  imports Main
begin

section \<open>The Munkres solver of \<open>hungarian.cpp\<close>\<close>

text \<open>
  The element type \<open>T\<close> of the template is taken to be \<open>int\<close> (32 bits, two's
  complement), the type \<open>main\<close> instantiates it with. Cost values are modelled as
  \<open>int\<close>, and every arithmetic operation the source performs in \<open>T\<close>
  (\<open>+=\<close>, \<open>-=\<close>, \<open>abs\<close>) is followed by \<open>wrapT\<close>, the reduction into
  the range of \<open>T\<close>. Indices and loop counters stay far below that range and are not
  wrapped.

  The mask matrix, the cover vectors and the step number are \<open>int\<close> containers and
  variables of the source: 0 is an unmarked cell, 1 a starred zero, 2 a primed zero.

  An access outside a container (undefined in C++) is the outcome \<open>OutOfBounds\<close>; the
  \<open>std::runtime_error\<close> of \<open>handle_negatives\<close> is the outcome \<open>NegativeValues\<close>.
\<close>

datatype error = NegativeValues | OutOfBounds

definition T_max :: int where
  "T_max = 2147483647"

definition wrapT :: "int \<Rightarrow> int" where
  "wrapT x = (x + 2147483648) mod 4294967296 - 2147483648"

subsection \<open>Preprocessing\<close>

text \<open>\<open>handle_negatives\<close>: the minimum of all entries, starting from the maximum of
  \<open>T\<close>; a negative minimum throws unless allowed, and is otherwise made positive and
  added to every entry.\<close>

definition handle_negatives :: "int list list \<Rightarrow> bool \<Rightarrow> error + int list list" where
  "handle_negatives matrix allowed =
     (let minval = fold (\<lambda>elem m. fold (\<lambda>num m'. min m' num) elem m) matrix T_max
      in if minval < 0
         then (if \<not> allowed then Inl NegativeValues
               else (let minval' = wrapT \<bar>minval\<bar>
                     in Inr (map (map (\<lambda>num. wrapT (num + minval'))) matrix)))
         else Inr matrix)"

text \<open>\<open>std::vector::resize(n, v)\<close>.\<close>

definition resize :: "nat \<Rightarrow> 'a \<Rightarrow> 'a list \<Rightarrow> 'a list" where
  "resize n v xs = take n xs @ replicate (n - length xs) v"

text \<open>\<open>pad_matrix\<close> reads \<open>matrix[0]\<close>; \<open>hungarian\<close> calls it on a matrix with at
  least one row only.\<close>

definition pad_matrix :: "int list list \<Rightarrow> int list list" where
  "pad_matrix matrix =
     (let i_size = length matrix; j_size = length (matrix ! 0)
      in if i_size > j_size then map (resize i_size T_max) matrix
         else if i_size < j_size
         then matrix @ replicate (j_size - i_size) (replicate j_size T_max)
         else matrix)"

definition clear_covers :: "int list \<Rightarrow> int list" where
  "clear_covers cover = map (\<lambda>n. 0) cover"

subsection \<open>Steps 1 to 3\<close>

text \<open>\<open>std::min_element\<close> on a row; the rows of the padded matrix are not empty.\<close>

definition min_element :: "int list \<Rightarrow> int" where
  "min_element row = fold (\<lambda>n m. if n < m then n else m) row (row ! 0)"

definition step1 :: "int list list \<Rightarrow> int list list \<times> int" where
  "step1 matrix =
     (map (\<lambda>row. let smallest = min_element row
                 in if smallest > 0 then map (\<lambda>n. wrapT (n - smallest)) row else row) matrix,
      2)"

definition step2_cell ::
  "int list list \<Rightarrow> nat \<Rightarrow> nat \<Rightarrow> int list list \<times> int list \<times> int list
     \<Rightarrow> int list list \<times> int list \<times> int list" where
  "step2_cell matrix r c = (\<lambda>(M, RowCover, ColCover).
     if matrix ! r ! c = 0 \<and> RowCover ! r = 0 \<and> ColCover ! c = 0
     then (M[r := (M ! r)[c := 1]], RowCover[r := 1], ColCover[c := 1])
     else (M, RowCover, ColCover))"

definition step2 ::
  "int list list \<Rightarrow> int list list \<Rightarrow> int list \<Rightarrow> int list
     \<Rightarrow> int list list \<times> int list \<times> int list \<times> int" where
  "step2 matrix M RowCover ColCover =
     (let sz = length matrix;
          (M', RowCover', ColCover') =
             fold (\<lambda>r. fold (step2_cell matrix r) [0..<sz]) [0..<sz] (M, RowCover, ColCover)
      in (M', clear_covers RowCover', clear_covers ColCover', 3))"

definition step3 :: "int list list \<Rightarrow> int list \<Rightarrow> int list \<times> int" where
  "step3 M ColCover =
     (let sz = length M;
          ColCover' = fold (\<lambda>r. fold (\<lambda>c cov. if M ! r ! c = 1 then cov[c := 1] else cov)
                                    [0..<sz]) [0..<sz] ColCover;
          colcount = fold (\<lambda>n k. if n = 1 then k + 1 else k) ColCover' (0::int)
      in (ColCover', if colcount \<ge> int sz then 7 else 4))"

subsection \<open>Step 4\<close>

text \<open>\<open>find_a_zero\<close>: the inner \<open>while (true)\<close> loop over the columns of row \<open>r\<close>,
  from column \<open>c\<close>, gives the column found or -1; the outer loop gives the pair
  \<open>(row, col)\<close>, \<open>(-1, -1)\<close> when no uncovered zero exists. Both loops test the cell
  before the bound, so they read \<open>matrix[0][0]\<close> first; the matrix is not empty.\<close>

function find_a_zero_cols :: "int list list \<Rightarrow> int list \<Rightarrow> int list \<Rightarrow> nat \<Rightarrow> nat \<Rightarrow> int" where
  "find_a_zero_cols matrix RowCover ColCover r c =
     (if matrix ! r ! c = 0 \<and> RowCover ! r = 0 \<and> ColCover ! c = 0 then int c
      else if c + 1 \<ge> length matrix then - 1
      else find_a_zero_cols matrix RowCover ColCover r (c + 1))"
  by pat_completeness auto
termination
  by (relation "measure (\<lambda>(matrix, RowCover, ColCover, r, c). length matrix - c)") auto

declare find_a_zero_cols.simps [simp del]

function find_a_zero_rows :: "int list list \<Rightarrow> int list \<Rightarrow> int list \<Rightarrow> nat \<Rightarrow> int \<times> int" where
  "find_a_zero_rows matrix RowCover ColCover r =
     (let col = find_a_zero_cols matrix RowCover ColCover r 0
      in if col \<noteq> - 1 then (int r, col)
         else if r + 1 \<ge> length matrix then (- 1, - 1)
         else find_a_zero_rows matrix RowCover ColCover (r + 1))"
  by pat_completeness auto
termination
  by (relation "measure (\<lambda>(matrix, RowCover, ColCover, r). length matrix - r)") auto

declare find_a_zero_rows.simps [simp del]

definition find_a_zero :: "int list list \<Rightarrow> int list \<Rightarrow> int list \<Rightarrow> int \<times> int" where
  "find_a_zero matrix RowCover ColCover = find_a_zero_rows matrix RowCover ColCover 0"

definition star_in_row :: "int \<Rightarrow> int list list \<Rightarrow> bool" where
  "star_in_row row M =
     fold (\<lambda>c tmp. if M ! nat row ! c = 1 then True else tmp) [0..<length M] False"

definition find_star_in_row :: "int \<Rightarrow> int list list \<Rightarrow> int" where
  "find_star_in_row row M =
     fold (\<lambda>c col. if M ! nat row ! c = 1 then int c else col) [0..<length M] (- 1)"

text \<open>The loop of \<open>step4\<close>. Its result is the mask, the covers, \<open>path_row_0\<close>,
  \<open>path_col_0\<close> and the next step; \<open>None\<close> stands for a loop that does not end.\<close>

partial_function (option) step4 ::
  "int list list \<Rightarrow> int list list \<Rightarrow> int list \<Rightarrow> int list \<Rightarrow> int \<Rightarrow> int
     \<Rightarrow> (int list list \<times> int list \<times> int list \<times> int \<times> int \<times> int) option" where
  "step4 matrix M RowCover ColCover path_row_0 path_col_0 =
     (case find_a_zero matrix RowCover ColCover of (row, col) \<Rightarrow>
        if row = - 1 then Some (M, RowCover, ColCover, path_row_0, path_col_0, 6)
        else (let M' = M[nat row := (M ! nat row)[nat col := 2]]
              in if star_in_row row M'
                 then (let col' = find_star_in_row row M'
                       in step4 matrix M' (RowCover[nat row := 1]) (ColCover[nat col' := 0])
                            path_row_0 path_col_0)
                 else Some (M', RowCover, ColCover, row, col, 5)))"

declare step4.simps [code]

subsection \<open>Step 5\<close>

text \<open>A cell of the mask addressed by \<open>int\<close> coordinates that come out of the path
  buffer.\<close>

definition in_mask :: "int list list \<Rightarrow> int \<Rightarrow> int \<Rightarrow> bool" where
  "in_mask M r c \<longleftrightarrow> 0 \<le> r \<and> nat r < length M \<and> 0 \<le> c \<and> nat c < length (M ! nat r)"

text \<open>\<open>find_star_in_col\<close> reads \<open>M[i][c]\<close> in every row \<open>i\<close>.\<close>

definition find_star_in_col :: "int \<Rightarrow> int list list \<Rightarrow> error + int" where
  "find_star_in_col c M =
     (if list_all (\<lambda>i. in_mask M (int i) c) [0..<length M]
      then Inr (fold (\<lambda>i r. if M ! i ! nat c = 1 then int i else r) [0..<length M] (- 1))
      else Inl OutOfBounds)"

text \<open>\<open>find_prime_in_row\<close> leaves \<open>c\<close> as it was when the row has no primed cell.\<close>

definition find_prime_in_row :: "int \<Rightarrow> int \<Rightarrow> int list list \<Rightarrow> int" where
  "find_prime_in_row r c M =
     fold (\<lambda>j c'. if M ! nat r ! j = 2 then int j else c') [0..<length M] c"

text \<open>A write \<open>path[i] = (r, c)\<close> into the path buffer.\<close>

definition path_set :: "(int \<times> int) list \<Rightarrow> nat \<Rightarrow> int \<times> int \<Rightarrow> error + (int \<times> int) list" where
  "path_set path i v = (if i < length path then Inr (path[i := v]) else Inl OutOfBounds)"

text \<open>The \<open>while (!done)\<close> loop of \<open>step5\<close>, entered with \<open>path_count \<ge> 1\<close> cells
  written. The result is the buffer and \<open>path_count\<close>.\<close>

function step5_loop ::
  "int list list \<Rightarrow> (int \<times> int) list \<Rightarrow> nat \<Rightarrow> int \<Rightarrow> error + ((int \<times> int) list \<times> nat)" where
  "step5_loop M path path_count c =
     (case find_star_in_col (snd (path ! (path_count - 1))) M of
        Inl e \<Rightarrow> Inl e
      | Inr r \<Rightarrow>
          if r > - 1
          then (case path_set path path_count (r, snd (path ! (path_count - 1))) of
                  Inl e \<Rightarrow> Inl e
                | Inr path1 \<Rightarrow>
                    (let c' = find_prime_in_row (fst (path1 ! path_count)) c M
                     in case path_set path1 (path_count + 1) (fst (path1 ! path_count), c') of
                          Inl e \<Rightarrow> Inl e
                        | Inr path2 \<Rightarrow> step5_loop M path2 (path_count + 2) c'))
          else Inr (path, path_count))"
  by pat_completeness auto
termination
  by (relation "measure (\<lambda>(M, path, path_count, c). length path - path_count)")
     (auto simp: path_set_def split: if_splits)

declare step5_loop.simps [simp del]

definition augment_cell :: "int \<times> int \<Rightarrow> error + int list list \<Rightarrow> error + int list list" where
  "augment_cell cell res =
     (case res of
        Inl e \<Rightarrow> Inl e
      | Inr M \<Rightarrow>
          (case cell of (r, c) \<Rightarrow>
             if in_mask M r c
             then (if M ! nat r ! nat c = 1
                   then Inr (M[nat r := (M ! nat r)[nat c := 0]])
                   else Inr (M[nat r := (M ! nat r)[nat c := 1]]))
             else Inl OutOfBounds))"

definition augment_path :: "(int \<times> int) list \<Rightarrow> nat \<Rightarrow> int list list \<Rightarrow> error + int list list" where
  "augment_path path path_count M =
     fold (\<lambda>p. augment_cell (path ! p)) [0..<path_count] (Inr M)"

definition erase_primes :: "int list list \<Rightarrow> int list list" where
  "erase_primes M = map (map (\<lambda>val. if val = 2 then 0 else val)) M"

definition step5 ::
  "(int \<times> int) list \<Rightarrow> int \<Rightarrow> int \<Rightarrow> int list list \<Rightarrow> int list \<Rightarrow> int list
     \<Rightarrow> error + ((int \<times> int) list \<times> int list list \<times> int list \<times> int list \<times> int)" where
  "step5 path path_row_0 path_col_0 M RowCover ColCover =
     (case path_set path 0 (path_row_0, path_col_0) of
        Inl e \<Rightarrow> Inl e
      | Inr path0 \<Rightarrow>
          (case step5_loop M path0 1 (- 1) of
             Inl e \<Rightarrow> Inl e
           | Inr (path', path_count) \<Rightarrow>
               (case augment_path path' path_count M of
                  Inl e \<Rightarrow> Inl e
                | Inr M' \<Rightarrow>
                    Inr (path', erase_primes M', clear_covers RowCover,
                         clear_covers ColCover, 3))))"

subsection \<open>Step 6\<close>

definition find_smallest :: "int \<Rightarrow> int list list \<Rightarrow> int list \<Rightarrow> int list \<Rightarrow> int" where
  "find_smallest minval matrix RowCover ColCover =
     fold (\<lambda>r. fold (\<lambda>c m. if RowCover ! r = 0 \<and> ColCover ! c = 0
                              then (if m > matrix ! r ! c then matrix ! r ! c else m)
                              else m) [0..<length matrix])
          [0..<length matrix] minval"

definition step6_cell :: "int list \<Rightarrow> int list \<Rightarrow> int \<Rightarrow> nat \<Rightarrow> nat \<Rightarrow> int \<Rightarrow> int" where
  "step6_cell RowCover ColCover minval r c x =
     (let x1 = (if RowCover ! r = 1 then wrapT (x + minval) else x)
      in if ColCover ! c = 0 then wrapT (x1 - minval) else x1)"

definition step6 :: "int list list \<Rightarrow> int list \<Rightarrow> int list \<Rightarrow> int list list \<times> int" where
  "step6 matrix RowCover ColCover =
     (let minval = find_smallest T_max matrix RowCover ColCover;
          sz = length matrix
      in (fold (\<lambda>r. fold (\<lambda>c m. m[r := (m ! r)[c := step6_cell RowCover ColCover minval r c
                                                       (m ! r ! c)]])
                        [0..<sz]) [0..<sz] matrix,
          4))"

subsection \<open>The solver\<close>

text \<open>\<open>output_solution\<close>: column by column, every cell of the original region whose
  mask entry is not 0 adds its original cost to the result, in \<open>T\<close>. Advancing an
  iterator beyond the end of a row of the original is out of bounds.\<close>

definition output_cell ::
  "int list list \<Rightarrow> int list list \<Rightarrow> nat \<Rightarrow> nat \<Rightarrow> error + int \<Rightarrow> error + int" where
  "output_cell original M j i res =
     (case res of
        Inl e \<Rightarrow> Inl e
      | Inr acc \<Rightarrow>
          if M ! i ! j \<noteq> 0
          then (if j < length (original ! i) then Inr (wrapT (acc + original ! i ! j))
                else Inl OutOfBounds)
          else Inr acc)"

definition output_solution :: "int list list \<Rightarrow> int list list \<Rightarrow> error + int" where
  "output_solution original M =
     fold (\<lambda>j. fold (output_cell original M j) [0..<length original])
          [0..<length (original ! 0)] (Inr 0)"

text \<open>The variables of \<open>hungarian\<close> that the steps share.\<close>

record solver =
  matrix :: "int list list"
  M :: "int list list"
  RowCover :: "int list"
  ColCover :: "int list"
  path_row_0 :: int
  path_col_0 :: int
  path :: "(int \<times> int) list"
  step :: int

text \<open>The \<open>while (!done) switch (step)\<close> loop of \<open>hungarian\<close>; \<open>rows\<close> and \<open>cols\<close>
  are the dimensions of the original. The result is the state when \<open>done\<close> is set, or the
  out-of-bounds access that ended the run; \<open>None\<close> stands for a loop that does not end.\<close>

partial_function (option) run :: "nat \<Rightarrow> nat \<Rightarrow> solver \<Rightarrow> (error + solver) option" where
  "run rows cols s =
     (if step s = 1 then
        (case step1 (matrix s) of (m, st) \<Rightarrow> run rows cols (s\<lparr>matrix := m, step := st\<rparr>))
      else if step s = 2 then
        (case step2 (matrix s) (M s) (RowCover s) (ColCover s) of (m, rc, cc, st) \<Rightarrow>
           run rows cols (s\<lparr>M := m, RowCover := rc, ColCover := cc, step := st\<rparr>))
      else if step s = 3 then
        (case step3 (M s) (ColCover s) of (cc, st) \<Rightarrow>
           run rows cols (s\<lparr>ColCover := cc, step := st\<rparr>))
      else if step s = 4 then
        (case step4 (matrix s) (M s) (RowCover s) (ColCover s) (path_row_0 s) (path_col_0 s) of
           None \<Rightarrow> None
         | Some (m, rc, cc, r0, c0, st) \<Rightarrow>
             run rows cols (s\<lparr>M := m, RowCover := rc, ColCover := cc,
                               path_row_0 := r0, path_col_0 := c0, step := st\<rparr>))
      else if step s = 5 then
        (case step5 (path s) (path_row_0 s) (path_col_0 s) (M s) (RowCover s) (ColCover s) of
           Inl e \<Rightarrow> Some (Inl e)
         | Inr (p, m, rc, cc, st) \<Rightarrow>
             run rows cols (s\<lparr>path := p, M := m, RowCover := rc, ColCover := cc, step := st\<rparr>))
      else if step s = 6 then
        (case step6 (matrix s) (RowCover s) (ColCover s) of (m, st) \<Rightarrow>
           run rows cols (s\<lparr>matrix := m, step := st\<rparr>))
      else if step s = 7 then
        Some (Inr (s\<lparr>M := take rows (map (resize cols 0) (M s))\<rparr>))
      else Some (Inr s))"

declare run.simps [code]

text \<open>\<open>hungarian\<close> up to the end of its loop. It reads the first row of the original
  for the number of columns (out of bounds when there is no row) and copies every row
  of the original into a zero row of that length (out of bounds when the row is longer).
  \<open>path_row_0\<close> and \<open>path_col_0\<close> are not initialised by the source and not read
  before step 4 has written them.\<close>

definition hungarian_state :: "int list list \<Rightarrow> bool \<Rightarrow> (error + solver) option" where
  "hungarian_state original allow_negatives =
     (if original = [] then Some (Inl OutOfBounds)
      else (let cols = length (original ! 0)
            in if list_ex (\<lambda>row. length row > cols) original then Some (Inl OutOfBounds)
               else (case handle_negatives
                            (map (\<lambda>row. row @ replicate (cols - length row) 0) original)
                            allow_negatives of
                       Inl e \<Rightarrow> Some (Inl e)
                     | Inr m \<Rightarrow>
                         (let m' = pad_matrix m; sz = length m'
                          in run (length original) cols
                               \<lparr>matrix = m', M = replicate sz (replicate sz 0),
                                RowCover = replicate sz 0, ColCover = replicate sz 0,
                                path_row_0 = 0, path_col_0 = 0,
                                path = replicate (sz + 1) (0, 0), step = 1\<rparr>))))"

definition hungarian :: "int list list \<Rightarrow> bool \<Rightarrow> (error + int) option" where
  "hungarian original allow_negatives =
     (case hungarian_state original allow_negatives of
        None \<Rightarrow> None
      | Some (Inl e) \<Rightarrow> Some (Inl e)
      | Some (Inr s) \<Rightarrow> Some (output_solution original (M s)))"

section \<open>Notions the claims speak of\<close>

text \<open>An input of \<open>hungarian\<close> is well formed when it has at least one row and all rows
  have the length of the first.\<close>

definition well_formed :: "int list list \<Rightarrow> bool" where
  "well_formed original \<longleftrightarrow>
     original \<noteq> [] \<and> list_all (\<lambda>row. length row = length (original ! 0)) original"

definition has_negative :: "int list list \<Rightarrow> bool" where
  "has_negative original \<longleftrightarrow> list_ex (list_ex (\<lambda>x. x < 0)) original"

text \<open>The cells of the region of \<open>R\<close> rows and \<open>C\<close> columns that the mask marks as
  starred, and a mask of size \<open>N\<close> that is a permutation matrix: one starred cell in every
  row and one in every column.\<close>

definition starred :: "nat \<Rightarrow> nat \<Rightarrow> int list list \<Rightarrow> (nat \<times> nat) set" where
  "starred R C Mk = set (filter (\<lambda>(r, c). Mk ! r ! c = 1) (List.product [0..<R] [0..<C]))"

definition permutation_matrix :: "nat \<Rightarrow> int list list \<Rightarrow> bool" where
  "permutation_matrix N Mk \<longleftrightarrow>
     (\<forall>r<N. \<exists>!c. c < N \<and> Mk ! r ! c = 1) \<and> (\<forall>c<N. \<exists>!r. r < N \<and> Mk ! r ! c = 1)"

text \<open>The values of the element type \<open>T\<close>.\<close>

definition in_range :: "int \<Rightarrow> bool" where
  "in_range x \<longleftrightarrow> - 2147483648 \<le> x \<and> x \<le> T_max"

text \<open>Shapes and marks of the mask matrix: a square matrix of size \<open>n\<close>; starred cells
  of which no two share a row or a column; cells that are unmarked or starred; cells that
  carry one of the three marks.\<close>

definition square :: "nat \<Rightarrow> 'a list list \<Rightarrow> bool" where
  "square n m \<longleftrightarrow> length m = n \<and> (\<forall>i<n. length (m ! i) = n)"

definition independent :: "nat \<Rightarrow> int list list \<Rightarrow> bool" where
  "independent n Mk \<longleftrightarrow>
     (\<forall>r<n. \<forall>c<n. \<forall>c'<n. Mk ! r ! c = 1 \<longrightarrow> Mk ! r ! c' = 1 \<longrightarrow> c = c') \<and>
     (\<forall>r<n. \<forall>r'<n. \<forall>c<n. Mk ! r ! c = 1 \<longrightarrow> Mk ! r' ! c = 1 \<longrightarrow> r = r')"

definition no_primes :: "nat \<Rightarrow> int list list \<Rightarrow> bool" where
  "no_primes n Mk \<longleftrightarrow> (\<forall>r<n. \<forall>c<n. Mk ! r ! c = 0 \<or> Mk ! r ! c = 1)"

definition marks :: "nat \<Rightarrow> int list list \<Rightarrow> bool" where
  "marks n Mk \<longleftrightarrow> (\<forall>r<n. \<forall>c<n. Mk ! r ! c = 0 \<or> Mk ! r ! c = 1 \<or> Mk ! r ! c = 2)"

text \<open>What the loop of step 4 keeps true of the mask and the covers, besides shape, marks
  and independence: a starred cell in an uncovered column has a primed cell in its row,
  and primed cells lie in uncovered columns.\<close>

definition step4_inv :: "nat \<Rightarrow> int list list \<Rightarrow> int list \<Rightarrow> int list \<Rightarrow> bool" where
  "step4_inv n Mk rc cc \<longleftrightarrow>
     square n Mk \<and> length rc = n \<and> length cc = n \<and> marks n Mk \<and> independent n Mk \<and>
     (\<forall>r<n. \<forall>c<n. Mk ! r ! c = 1 \<and> cc ! c = 0 \<longrightarrow> (\<exists>c'<n. Mk ! r ! c' = 2)) \<and>
     (\<forall>r<n. \<forall>c<n. Mk ! r ! c = 2 \<longrightarrow> cc ! c = 0)"

text \<open>The alternating path of step 5 from a primed cell \<open>(r, c)\<close>: \<open>qs\<close> are its primed
  cells in order, \<open>zs\<close> all its cells in the order in which the loop writes them (primed,
  starred, primed, ...). \<open>next_col\<close> is the column of the next primed cell,
  \<open>path_stars\<close> the starred cells between the primed ones.\<close>

inductive alt_path ::
  "int list list \<Rightarrow> nat \<Rightarrow> nat \<Rightarrow> (nat \<times> nat) list \<Rightarrow> (nat \<times> nat) list \<Rightarrow> bool"
  for Mk :: "int list list" where
  stop: "find_star_in_col (int c) Mk = Inr (- 1) \<Longrightarrow> alt_path Mk r c [(r, c)] [(r, c)]"
| more: "find_star_in_col (int c) Mk = Inr (int r') \<Longrightarrow>
         find_prime_in_row (int r') (- 1) Mk = int c' \<Longrightarrow>
         alt_path Mk r' c' qs zs \<Longrightarrow>
         alt_path Mk r c ((r, c) # qs) ((r, c) # (r', c) # zs)"

definition next_col :: "int list list \<Rightarrow> nat \<Rightarrow> nat option" where
  "next_col Mk c =
     (case find_star_in_col (int c) Mk of
        Inl e \<Rightarrow> None
      | Inr r \<Rightarrow> if r < 0 then None
                else (let c' = find_prime_in_row r (- 1) Mk
                      in if c' < 0 then None else Some (nat c')))"

definition path_stars :: "(nat \<times> nat) list \<Rightarrow> (nat \<times> nat) list" where
  "path_stars qs = map (\<lambda>i. (fst (qs ! Suc i), snd (qs ! i))) [0..<length qs - 1]"

text \<open>The invariant of the loop of \<open>hungarian\<close>, by step: before steps 1 and 2 the mask
  is empty; before step 3 and at step 7 the mask holds independent starred cells and no
  primed cell, with all covers cleared before step 3 and a starred cell in every column at
  step 7; before steps 4, 5 and 6 the invariant of step 4 holds, and before step 5
  \<open>path_row_0\<close>, \<open>path_col_0\<close> name a primed cell whose row has no starred cell.\<close>

definition solver_inv :: "nat \<Rightarrow> solver \<Rightarrow> bool" where
  "solver_inv n s \<longleftrightarrow>
     length (matrix s) = n \<and> 0 < n \<and> square n (M s) \<and>
     length (RowCover s) = n \<and> length (ColCover s) = n \<and>
     (if step s = 1 \<or> step s = 2 then \<forall>r<n. \<forall>c<n. M s ! r ! c = 0
      else if step s = 3 then
        no_primes n (M s) \<and> independent n (M s) \<and>
        RowCover s = replicate n 0 \<and> ColCover s = replicate n 0
      else if step s = 4 \<or> step s = 6 then step4_inv n (M s) (RowCover s) (ColCover s)
      else if step s = 5 then
        step4_inv n (M s) (RowCover s) (ColCover s) \<and>
        (\<exists>r<n. \<exists>c<n. path_row_0 s = int r \<and> path_col_0 s = int c \<and> M s ! r ! c = 2
                     \<and> (\<forall>c'<n. M s ! r ! c' \<noteq> 1))
      else step s = 7 \<and> no_primes n (M s) \<and> independent n (M s)
           \<and> (\<forall>c<n. \<exists>r<n. M s ! r ! c = 1))"

section \<open>Errors\<close>

subsection \<open>Negative values\<close>

lemma fold_min_neg:
  "fold (\<lambda>num m'. min m' num) elem m < 0 \<longleftrightarrow> m < 0 \<or> (\<exists>x\<in>set elem. x < (0::int))"
  by (induction elem arbitrary: m) (auto simp: min_def)

lemma fold_fold_min_neg:
  "fold (\<lambda>elem m. fold (\<lambda>num m'. min m' num) elem m) mat m < 0
     \<longleftrightarrow> m < 0 \<or> (\<exists>row\<in>set mat. \<exists>x\<in>set row. x < (0::int))"
  by (induction mat arbitrary: m) (auto simp: fold_min_neg)

lemma handle_negatives_error:
  "handle_negatives mat allowed = Inl e \<longleftrightarrow>
     e = NegativeValues \<and> \<not> allowed \<and> (\<exists>row\<in>set mat. \<exists>x\<in>set row. x < 0)"
  by (auto simp: handle_negatives_def Let_def fold_fold_min_neg T_max_def)

lemma path_set_error: "path_set p i v = Inl e \<Longrightarrow> e = OutOfBounds"
  by (auto simp: path_set_def split: if_splits)

lemma find_star_in_col_error: "find_star_in_col c Mk = Inl e \<Longrightarrow> e = OutOfBounds"
  by (auto simp: find_star_in_col_def split: if_splits)

lemma step5_loop_error: "step5_loop Mk p pc c = Inl e \<Longrightarrow> e = OutOfBounds"
proof (induction Mk p pc c rule: step5_loop.induct)
  case (1 Mk p pc c)
  show ?case
  proof (cases "find_star_in_col (snd (p ! (pc - 1))) Mk")
    case (Inl e')
    with "1.prems" show ?thesis
      by (subst (asm) step5_loop.simps) (simp add: find_star_in_col_error)
  next
    case (Inr r)
    show ?thesis
    proof (cases "r > - 1")
      case False
      with Inr "1.prems" show ?thesis
        by (subst (asm) step5_loop.simps) simp
    next
      case True
      show ?thesis
      proof (cases "path_set p pc (r, snd (p ! (pc - 1)))")
        case (Inl e')
        with Inr True "1.prems" show ?thesis
          by (subst (asm) step5_loop.simps) (simp add: path_set_error)
      next
        case p1: (Inr path1)
        define c' where "c' = find_prime_in_row (fst (path1 ! pc)) c Mk"
        show ?thesis
        proof (cases "path_set path1 (pc + 1) (fst (path1 ! pc), c')")
          case (Inl e')
          with Inr True p1 "1.prems" show ?thesis
            by (subst (asm) step5_loop.simps) (simp add: path_set_error c'_def Let_def)
        next
          case p2: (Inr path2)
          have "step5_loop Mk path2 (pc + 2) c' = Inl e"
            using Inr True p1 p2 "1.prems"
            by (subst (asm) step5_loop.simps) (simp add: c'_def Let_def)
          with "1.IH" [OF Inr True p1 c'_def p2] show ?thesis by simp
        qed
      qed
    qed
  qed
qed

lemma augment_cell_error: "augment_cell z res = Inl e \<Longrightarrow> res = Inl e \<or> e = OutOfBounds"
  by (auto simp: augment_cell_def split: sum.splits prod.splits if_splits)

lemma fold_augment_error:
  "fold (\<lambda>p. augment_cell (f p)) ps res = Inl e \<Longrightarrow> res = Inl e \<or> e = OutOfBounds"
  by (induction ps arbitrary: res) (auto dest: augment_cell_error)

lemma step5_error: "step5 p r0 c0 Mk RC CC = Inl e \<Longrightarrow> e = OutOfBounds"
  unfolding step5_def augment_path_def
  by (auto split: sum.splits prod.splits
           dest: path_set_error step5_loop_error fold_augment_error)

lemma run_error:
  assumes "run rows cols s = Some res"
  shows "\<forall>e. res = Inl e \<longrightarrow> e = OutOfBounds"
proof (rule run.raw_induct [where P = "\<lambda>rows cols s res. \<forall>e. res = Inl e \<longrightarrow> e = OutOfBounds",
                             OF _ assms])
  fix run' rows cols s res
  assume IH: "\<And>rows cols s res. run' rows cols s = Some res
                 \<Longrightarrow> \<forall>e. res = Inl e \<longrightarrow> e = OutOfBounds"
    and body: "(if step s = 1 then
        (case step1 (matrix s) of (m, st) \<Rightarrow> run' rows cols (s\<lparr>matrix := m, step := st\<rparr>))
      else if step s = 2 then
        (case step2 (matrix s) (M s) (RowCover s) (ColCover s) of (m, rc, cc, st) \<Rightarrow>
           run' rows cols (s\<lparr>M := m, RowCover := rc, ColCover := cc, step := st\<rparr>))
      else if step s = 3 then
        (case step3 (M s) (ColCover s) of (cc, st) \<Rightarrow>
           run' rows cols (s\<lparr>ColCover := cc, step := st\<rparr>))
      else if step s = 4 then
        (case step4 (matrix s) (M s) (RowCover s) (ColCover s) (path_row_0 s) (path_col_0 s) of
           None \<Rightarrow> None
         | Some (m, rc, cc, r0, c0, st) \<Rightarrow>
             run' rows cols (s\<lparr>M := m, RowCover := rc, ColCover := cc,
                               path_row_0 := r0, path_col_0 := c0, step := st\<rparr>))
      else if step s = 5 then
        (case step5 (path s) (path_row_0 s) (path_col_0 s) (M s) (RowCover s) (ColCover s) of
           Inl e \<Rightarrow> Some (Inl e)
         | Inr (p, m, rc, cc, st) \<Rightarrow>
             run' rows cols (s\<lparr>path := p, M := m, RowCover := rc, ColCover := cc, step := st\<rparr>))
      else if step s = 6 then
        (case step6 (matrix s) (RowCover s) (ColCover s) of (m, st) \<Rightarrow>
           run' rows cols (s\<lparr>matrix := m, step := st\<rparr>))
      else if step s = 7 then
        Some (Inr (s\<lparr>M := take rows (map (resize cols 0) (M s))\<rparr>))
      else Some (Inr s)) = Some res"
  show "\<forall>e. res = Inl e \<longrightarrow> e = OutOfBounds"
    using body IH
    by (auto split: if_splits prod.splits option.splits sum.splits dest: step5_error)
qed


lemma output_cell_error: "output_cell orig Mk j i res = Inl e \<Longrightarrow> res = Inl e \<or> e = OutOfBounds"
  by (cases res) (simp_all add: output_cell_def split: if_splits)

lemma fold_output_cell_error:
  "fold (output_cell orig Mk j) ks res = Inl e \<Longrightarrow> res = Inl e \<or> e = OutOfBounds"
proof (induction ks arbitrary: res)
  case Nil
  then show ?case by simp
next
  case (Cons k ks)
  from Cons.prems have "fold (output_cell orig Mk j) ks (output_cell orig Mk j k res) = Inl e"
    by simp
  from Cons.IH [OF this] show ?case
    using output_cell_error [of orig Mk j k res e] by blast
qed

lemma fold_fold_output_cell_error:
  "fold (\<lambda>j. fold (output_cell orig Mk j) ks) js res = Inl e \<Longrightarrow> res = Inl e \<or> e = OutOfBounds"
proof (induction js arbitrary: res)
  case Nil
  then show ?case by simp
next
  case (Cons j js)
  from Cons.prems
  have "fold (\<lambda>j. fold (output_cell orig Mk j) ks) js (fold (output_cell orig Mk j) ks res) = Inl e"
    by simp
  from Cons.IH [OF this] show ?case
    using fold_output_cell_error [of orig Mk j ks res e] by blast
qed

lemma output_solution_error: "output_solution orig Mk = Inl e \<Longrightarrow> e = OutOfBounds"
  unfolding output_solution_def using fold_fold_output_cell_error by fastforce

lemma has_negative_iff: "has_negative orig \<longleftrightarrow> (\<exists>row\<in>set orig. \<exists>x\<in>set row. x < 0)"
  by (auto simp: has_negative_def list_ex_iff)

text \<open>
  Claim C7: with \<open>allow_negatives = false\<close> and a negative entry in the input, the solver
  fails with the negative-values error; without a negative entry that error is never
  raised; \<open>[[1,-2],[3,4]]\<close> with \<open>allow_negatives = false\<close> yields the error. The
  theorem says more: on a well-formed input the error is raised exactly when negatives are
  not allowed and an entry is negative. The solver takes its input by constant reference and
  works on a copy (the argument \<open>original\<close> of the model is never changed), so the
  caller sees no mutation on any path.
\<close>

theorem negative_values_error_iff:
  assumes "well_formed original"
  shows "hungarian original allow_negatives = Some (Inl NegativeValues)
           \<longleftrightarrow> \<not> allow_negatives \<and> has_negative original"
proof -
  let ?cols = "length (original ! 0)"
  let ?copy = "map (\<lambda>row. row @ replicate (?cols - length row) 0) original"
  from assms have ne: "original \<noteq> []"
    and len: "\<not> list_ex (\<lambda>row. length row > ?cols) original"
    unfolding well_formed_def list_ex_iff list_all_iff by fastforce+
  have neg: "(\<exists>row\<in>set ?copy. \<exists>x\<in>set row. x < 0) \<longleftrightarrow> has_negative original"
    by (auto simp: has_negative_iff)
  show ?thesis
  proof (cases "handle_negatives ?copy allow_negatives")
    case (Inl e)
    then have "e = NegativeValues \<and> \<not> allow_negatives \<and> has_negative original"
      using neg by (simp add: handle_negatives_error)
    with Inl ne len show ?thesis
      by (simp add: hungarian_def hungarian_state_def)
  next
    case (Inr m)
    then have no: "\<not> (\<not> allow_negatives \<and> has_negative original)"
      using handle_negatives_error [of ?copy allow_negatives NegativeValues] neg by auto
    have "hungarian original allow_negatives \<noteq> Some (Inl NegativeValues)"
    proof
      assume h: "hungarian original allow_negatives = Some (Inl NegativeValues)"
      show False
      proof (cases "hungarian_state original allow_negatives")
        case None
        with h show False by (simp add: hungarian_def)
      next
        case (Some res)
        then have r: "run (length original) ?cols
               \<lparr>matrix = pad_matrix m,
                  M = replicate (length (pad_matrix m)) (replicate (length (pad_matrix m)) 0),
                  RowCover = replicate (length (pad_matrix m)) 0,
                  ColCover = replicate (length (pad_matrix m)) 0,
                  path_row_0 = 0, path_col_0 = 0,
                  path = replicate (length (pad_matrix m) + 1) (0, 0), step = 1\<rparr> = Some res"
          using Inr ne len by (simp add: hungarian_state_def Let_def)
        show False
        proof (cases res)
          case (Inl e)
          with run_error [OF r] have "e = OutOfBounds" by simp
          with h Some Inl show False by (simp add: hungarian_def)
        next
          case (Inr sf)
          with h Some have "output_solution original (M sf) = Inl NegativeValues"
            by (simp add: hungarian_def)
          then show False by (auto dest: output_solution_error)
        qed
      qed
    qed
    with no show ?thesis by blast
  qed
qed

text \<open>The theorem at \<open>[[1,-2],[3,4]]\<close> and at \<open>[[1,2],[3,4]]\<close>.\<close>

theorem negative_values_error_witness:
  "well_formed [[1, - 2], [3, 4]]
   \<and> hungarian [[1, - 2], [3, 4]] False = Some (Inl NegativeValues)
   \<and> hungarian [[1, - 2], [3, 4]] True \<noteq> Some (Inl NegativeValues)
   \<and> hungarian [[1, 2], [3, 4]] False \<noteq> Some (Inl NegativeValues)"
proof -
  have wf: "well_formed [[1, - 2], [3, 4]]" "well_formed [[1, 2], [3, 4]]"
    by (simp_all add: well_formed_def)
  have "has_negative [[1, - 2], [3, 4]]" "\<not> has_negative [[1, 2], [3, 4]]"
    by (simp_all add: has_negative_def)
  then show ?thesis
    using wf negative_values_error_iff [OF wf(1), of False]
      negative_values_error_iff [OF wf(1), of True]
      negative_values_error_iff [OF wf(2), of False]
    by simp
qed

section \<open>The steps\<close>

subsection \<open>Loops over index ranges\<close>

lemma fold_inv:
  "Q s \<Longrightarrow> (\<And>x s. x \<in> set xs \<Longrightarrow> Q s \<Longrightarrow> Q (f x s)) \<Longrightarrow> Q (fold f xs s)"
  by (induction xs arbitrary: s) auto

lemma fold_upt_inv:
  assumes "P 0 s" and "\<And>i s. i < n \<Longrightarrow> P i s \<Longrightarrow> P (Suc i) (f i s)"
  shows "P n (fold f [0..<n] s)"
  using assms(2)
proof (induction n)
  case 0
  show ?case using assms(1) by simp
next
  case (Suc n)
  have "P n (fold f [0..<n] s)" using Suc by simp
  then show ?case using Suc.prems [of n] by simp
qed

lemma nth_update_if: "xs[i := x] ! j = (if i = j \<and> i < length xs then x else xs ! j)"
  by (cases "i < length xs") (auto simp: nth_list_update list_update_beyond)

lemma nth_upd2:
  "square n m \<Longrightarrow> r < n \<Longrightarrow> c < n \<Longrightarrow> r' < n \<Longrightarrow> c' < n \<Longrightarrow>
     m[r := (m ! r)[c := v]] ! r' ! c' = (if r' = r \<and> c' = c then v else m ! r' ! c')"
  by (auto simp: square_def nth_update_if)

lemma square_upd2: "square n m \<Longrightarrow> square n (m[r := (m ! r)[c := v]])"
  by (auto simp: square_def nth_update_if)

subsection \<open>Step 2\<close>

text \<open>What the scan of step 2 keeps true: the starred cells are independent and every
  starred cell has its row and its column covered.\<close>

definition step2_inv :: "nat \<Rightarrow> int list list \<times> int list \<times> int list \<Rightarrow> bool" where
  "step2_inv n = (\<lambda>(Mk, rc, cc).
     square n Mk \<and> length rc = n \<and> length cc = n \<and> no_primes n Mk \<and> independent n Mk \<and>
     (\<forall>r<n. \<forall>c<n. Mk ! r ! c = 1 \<longrightarrow> rc ! r \<noteq> 0 \<and> cc ! c \<noteq> 0))"

lemma step2_cell_inv:
  assumes "step2_inv n st" "r < n" "c < n"
  shows "step2_inv n (step2_cell m r c st)"
proof -
  obtain Mk rc cc where st: "st = (Mk, rc, cc)" by (cases st)
  from assms(1) st have sq: "square n Mk" and l: "length rc = n" "length cc = n"
    and np: "no_primes n Mk" and ind: "independent n Mk"
    and cov: "\<And>r c. r < n \<Longrightarrow> c < n \<Longrightarrow> Mk ! r ! c = 1 \<Longrightarrow> rc ! r \<noteq> 0 \<and> cc ! c \<noteq> 0"
    by (auto simp: step2_inv_def)
  show ?thesis
  proof (cases "m ! r ! c = 0 \<and> rc ! r = 0 \<and> cc ! c = 0")
    case False
    then show ?thesis using assms(1) st by (auto simp: step2_cell_def)
  next
    case True
    let ?M = "Mk[r := (Mk ! r)[c := 1]]"
    have res: "step2_cell m r c st = (?M, rc[r := 1], cc[c := 1])"
      using True st by (simp add: step2_cell_def)
    have nth: "\<And>r' c'. r' < n \<Longrightarrow> c' < n \<Longrightarrow>
        ?M ! r' ! c' = (if r' = r \<and> c' = c then 1 else Mk ! r' ! c')"
      using nth_upd2 [OF sq assms(2,3)] by simp
    have norow: "\<And>c'. c' < n \<Longrightarrow> Mk ! r ! c' \<noteq> 1"
      using cov [OF assms(2)] True by blast
    have nocol: "\<And>r'. r' < n \<Longrightarrow> Mk ! r' ! c \<noteq> 1"
      using cov [OF _ assms(3)] True by blast
    have "square n ?M" using sq by (rule square_upd2)
    moreover have "no_primes n ?M"
      using np by (simp add: no_primes_def nth)
    moreover have "independent n ?M"
      using ind norow nocol unfolding independent_def
      by (simp add: nth)
    moreover have "\<forall>r'<n. \<forall>c'<n. ?M ! r' ! c' = 1 \<longrightarrow> rc[r := 1] ! r' \<noteq> 0 \<and> cc[c := 1] ! c' \<noteq> 0"
    proof (intro allI impI)
      fix r' c' assume b: "r' < n" "c' < n" and one: "?M ! r' ! c' = 1"
      have "rc[r := 1] ! r' = (if r' = r then 1 else rc ! r')"
        "cc[c := 1] ! c' = (if c' = c then 1 else cc ! c')"
        using b l assms(2,3) by (simp_all add: nth_list_update)
      moreover have "r' = r \<and> c' = c \<or> rc ! r' \<noteq> 0 \<and> cc ! c' \<noteq> 0"
        using one cov [OF b] by (simp add: nth b split: if_splits)
      ultimately show "rc[r := 1] ! r' \<noteq> 0 \<and> cc[c := 1] ! c' \<noteq> 0"
        by auto
    qed
    ultimately show ?thesis using res l by (simp add: step2_inv_def)
  qed
qed

lemma step2_result:
  assumes "length m = n" "square n Mk" "length rc = n" "length cc = n"
    and "\<forall>r<n. \<forall>c<n. Mk ! r ! c = 0"
    and "step2 m Mk rc cc = (Mk', rc', cc', st)"
  shows "st = 3 \<and> square n Mk' \<and> no_primes n Mk' \<and> independent n Mk'
         \<and> rc' = replicate n 0 \<and> cc' = replicate n 0"
proof -
  let ?res = "fold (\<lambda>r. fold (step2_cell m r) [0..<n]) [0..<n] (Mk, rc, cc)"
  have init: "step2_inv n (Mk, rc, cc)"
    using assms(2-5) by (simp add: step2_inv_def no_primes_def independent_def)
  have "step2_inv n ?res"
  proof (rule fold_inv [where Q = "step2_inv n"])
    show "step2_inv n (Mk, rc, cc)" by (rule init)
  next
    fix r st assume r: "r \<in> set [0..<n]" and st: "step2_inv n st"
    show "step2_inv n (fold (step2_cell m r) [0..<n] st)"
    proof (rule fold_inv [where Q = "step2_inv n"])
      show "step2_inv n st" by (rule st)
    next
      fix c st' assume "c \<in> set [0..<n]" "step2_inv n st'"
      with r show "step2_inv n (step2_cell m r c st')"
        by (simp add: step2_cell_inv)
    qed
  qed
  moreover obtain M2 rc2 cc2 where r: "?res = (M2, rc2, cc2)" by (cases ?res)
  ultimately have "square n M2" "no_primes n M2" "independent n M2" "length rc2 = n" "length cc2 = n"
    by (auto simp: step2_inv_def)
  moreover have "Mk' = M2" "rc' = clear_covers rc2" "cc' = clear_covers cc2" "st = 3"
    using assms(6) r assms(1) by (simp_all add: step2_def Let_def)
  ultimately show ?thesis
    by (simp add: clear_covers_def map_replicate_const)
qed

subsection \<open>Step 3\<close>

lemma fold_last_index:
  "fold (\<lambda>j acc. if Q j then g j else acc) [0..<n] a = res \<Longrightarrow>
     (res = a \<and> (\<forall>j<n. \<not> Q j)) \<or> (\<exists>j<n. res = g j \<and> Q j)"
proof (induction n arbitrary: res)
  case 0
  then show ?case by simp
next
  case (Suc n)
  show ?case
  proof (cases "Q n")
    case True
    with Suc.prems show ?thesis by auto
  next
    case False
    with Suc.prems have "fold (\<lambda>j acc. if Q j then g j else acc) [0..<n] a = res" by simp
    from Suc.IH [OF this] False show ?thesis
      by (metis less_Suc_eq)
  qed
qed

lemma step3_cover:
  assumes "length cc = n"
  shows "length (fold (\<lambda>r. fold (\<lambda>c cov. if Mk ! r ! c = 1 then cov[c := 1] else cov) [0..<n])
                   [0..<k] cc) = n \<and>
         (\<forall>c<n. fold (\<lambda>r. fold (\<lambda>c cov. if Mk ! r ! c = 1 then cov[c := 1] else cov) [0..<n])
                   [0..<k] cc ! c = (if \<exists>r<k. Mk ! r ! c = 1 then 1 else cc ! c))"
proof (rule fold_upt_inv [where P = "\<lambda>i cov. length cov = n \<and>
          (\<forall>c<n. cov ! c = (if \<exists>r<i. Mk ! r ! c = 1 then 1 else cc ! c))"])
  show "length cc = n \<and> (\<forall>c<n. cc ! c = (if \<exists>r<0. Mk ! r ! c = 1 then 1 else cc ! c))"
    using assms by simp
next
  fix i cov
  assume i: "i < k"
    and cov: "length cov = n \<and> (\<forall>c<n. cov ! c = (if \<exists>r<i. Mk ! r ! c = 1 then 1 else cc ! c))"
  have "length (fold (\<lambda>c cov. if Mk ! i ! c = 1 then cov[c := 1] else cov) [0..<n] cov) = n \<and>
        (\<forall>c<n. fold (\<lambda>c cov. if Mk ! i ! c = 1 then cov[c := 1] else cov) [0..<n] cov ! c
                  = (if c < n \<and> Mk ! i ! c = 1 then 1 else cov ! c))"
  proof (rule fold_upt_inv [where P = "\<lambda>j cv. length cv = n \<and>
          (\<forall>c<n. cv ! c = (if c < j \<and> Mk ! i ! c = 1 then 1 else cov ! c))"])
    show "length cov = n \<and> (\<forall>c<n. cov ! c = (if c < 0 \<and> Mk ! i ! c = 1 then 1 else cov ! c))"
      using cov by simp
  next
    fix j cv
    assume "j < n" and "length cv = n \<and> (\<forall>c<n. cv ! c = (if c < j \<and> Mk ! i ! c = 1 then 1 else cov ! c))"
    then show "length (if Mk ! i ! j = 1 then cv[j := 1] else cv) = n \<and>
       (\<forall>c<n. (if Mk ! i ! j = 1 then cv[j := 1] else cv) ! c
                 = (if c < Suc j \<and> Mk ! i ! c = 1 then 1 else cov ! c))"
      by (auto simp: nth_update_if less_Suc_eq)
  qed
  then show "length (fold (\<lambda>c cov. if Mk ! i ! c = 1 then cov[c := 1] else cov) [0..<n] cov) = n \<and>
        (\<forall>c<n. fold (\<lambda>c cov. if Mk ! i ! c = 1 then cov[c := 1] else cov) [0..<n] cov ! c
                  = (if \<exists>r<Suc i. Mk ! r ! c = 1 then 1 else cc ! c))"
    using cov by (auto simp: less_Suc_eq)
qed

lemma colcount_filter:
  "fold (\<lambda>n k. if n = 1 then k + 1 else k) xs (k0::int) = k0 + int (length (filter (\<lambda>n. n = (1::int)) xs))"
  by (induction xs arbitrary: k0) auto

lemma filter_full: "length (filter P xs) \<ge> length xs \<longleftrightarrow> (\<forall>x\<in>set xs. P x)"
proof
  assume "length xs \<le> length (filter P xs)"
  then have "length (filter P xs) = length xs" using length_filter_le [of P xs] by simp
  then show "\<forall>x\<in>set xs. P x" by (metis filter_id_conv length_filter_less less_irrefl_nat)
next
  assume "\<forall>x\<in>set xs. P x"
  then show "length xs \<le> length (filter P xs)" by (simp add: filter_id_conv)
qed

lemma step3_result:
  assumes "length Mk = n" "length cc = n" "\<forall>c<n. cc ! c = 0"
    and "step3 Mk cc = (cc', st)"
  shows "length cc' = n \<and> (\<forall>c<n. cc' ! c = (if \<exists>r<n. Mk ! r ! c = 1 then 1 else 0))
         \<and> (st = 7 \<or> st = 4) \<and> (st = 7 \<longleftrightarrow> (\<forall>c<n. \<exists>r<n. Mk ! r ! c = 1))"
proof -
  let ?cov = "fold (\<lambda>r. fold (\<lambda>c cov. if Mk ! r ! c = 1 then cov[c := 1] else cov) [0..<n])
                   [0..<n] cc"
  have cc': "cc' = ?cov" and st: "st = (if int (length (filter (\<lambda>n. n = 1) ?cov)) \<ge> int n then 7 else 4)"
    using assms(1,4) by (auto simp: step3_def Let_def colcount_filter)
  have len: "length ?cov = n" and val: "\<And>c. c < n \<Longrightarrow> ?cov ! c = (if \<exists>r<n. Mk ! r ! c = 1 then 1 else 0)"
    using step3_cover [OF assms(2), of Mk n] assms(3) by auto
  have "int (length (filter (\<lambda>n. n = 1) ?cov)) \<ge> int n \<longleftrightarrow> (\<forall>x\<in>set ?cov. x = 1)"
    using filter_full [of ?cov "\<lambda>n. n = 1"] len by simp
  also have "\<dots> \<longleftrightarrow> (\<forall>c<n. ?cov ! c = 1)"
    using len by (auto simp: all_set_conv_all_nth)
  also have "\<dots> \<longleftrightarrow> (\<forall>c<n. \<exists>r<n. Mk ! r ! c = 1)"
    using val by auto
  finally show ?thesis using cc' st len val by auto
qed

subsection \<open>The searches of step 4\<close>

lemma find_a_zero_cols_spec:
  assumes "c < length m"
  shows "(find_a_zero_cols m rc cc r c = - 1 \<and>
            (\<forall>c'. c \<le> c' \<and> c' < length m \<longrightarrow> \<not> (m ! r ! c' = 0 \<and> rc ! r = 0 \<and> cc ! c' = 0)))
         \<or> (\<exists>c'. find_a_zero_cols m rc cc r c = int c' \<and> c \<le> c' \<and> c' < length m
                  \<and> m ! r ! c' = 0 \<and> rc ! r = 0 \<and> cc ! c' = 0)"
  using assms
proof (induction m rc cc r c rule: find_a_zero_cols.induct)
  case (1 m rc cc r c)
  show ?case
  proof (cases "m ! r ! c = 0 \<and> rc ! r = 0 \<and> cc ! c = 0")
    case True
    then have "find_a_zero_cols m rc cc r c = int c"
      by (subst find_a_zero_cols.simps) simp
    with True "1.prems" show ?thesis by auto
  next
    case False
    show ?thesis
    proof (cases "c + 1 \<ge> length m")
      case True
      with False have "find_a_zero_cols m rc cc r c = - 1"
        by (subst find_a_zero_cols.simps) simp
      moreover have "\<forall>c'. c \<le> c' \<and> c' < length m \<longrightarrow> c' = c"
        using True by auto
      ultimately show ?thesis using False by blast
    next
      case next_col: False
      with False have eq: "find_a_zero_cols m rc cc r c = find_a_zero_cols m rc cc r (c + 1)"
        by (subst find_a_zero_cols.simps) auto
      have "c + 1 < length m" using next_col by simp
      from "1.IH" [OF False next_col this]
      show ?thesis
      proof
        assume a: "find_a_zero_cols m rc cc r (c + 1) = - 1 \<and>
          (\<forall>c'. c + 1 \<le> c' \<and> c' < length m \<longrightarrow> \<not> (m ! r ! c' = 0 \<and> rc ! r = 0 \<and> cc ! c' = 0))"
        have "\<forall>c'. c \<le> c' \<and> c' < length m \<longrightarrow> \<not> (m ! r ! c' = 0 \<and> rc ! r = 0 \<and> cc ! c' = 0)"
        proof (intro allI impI)
          fix c' assume "c \<le> c' \<and> c' < length m"
          then have "c' = c \<or> (c + 1 \<le> c' \<and> c' < length m)" by auto
          then show "\<not> (m ! r ! c' = 0 \<and> rc ! r = 0 \<and> cc ! c' = 0)"
            using False a by blast
        qed
        with a eq show ?thesis by simp
      next
        assume "\<exists>c'. find_a_zero_cols m rc cc r (c + 1) = int c' \<and> c + 1 \<le> c' \<and> c' < length m
                  \<and> m ! r ! c' = 0 \<and> rc ! r = 0 \<and> cc ! c' = 0"
        then obtain c' where "find_a_zero_cols m rc cc r (c + 1) = int c'" "c + 1 \<le> c'"
          "c' < length m" "m ! r ! c' = 0 \<and> rc ! r = 0 \<and> cc ! c' = 0" by blast
        with eq show ?thesis by (intro disjI2 exI [of _ c']) simp
      qed
    qed
  qed
qed

lemma find_a_zero_rows_spec:
  assumes "r < length m"
  shows "(find_a_zero_rows m rc cc r = (- 1, - 1) \<and>
            (\<forall>r' c'. r \<le> r' \<and> r' < length m \<and> c' < length m
                \<longrightarrow> \<not> (m ! r' ! c' = 0 \<and> rc ! r' = 0 \<and> cc ! c' = 0)))
         \<or> (\<exists>r' c'. find_a_zero_rows m rc cc r = (int r', int c') \<and> r' < length m \<and> c' < length m
                  \<and> m ! r' ! c' = 0 \<and> rc ! r' = 0 \<and> cc ! c' = 0)"
  using assms
proof (induction m rc cc r rule: find_a_zero_rows.induct)
  case (1 m rc cc r)
  have pos: "0 < length m" using "1.prems" by auto
  note cols = find_a_zero_cols_spec [where c = 0 and m = m and rc = rc and cc = cc and r = r, OF pos]
  show ?case
  proof (cases "find_a_zero_cols m rc cc r 0 = - 1")
    case found: False
    with cols obtain c' where c': "find_a_zero_cols m rc cc r 0 = int c'" "c' < length m"
      "m ! r ! c' = 0 \<and> rc ! r = 0 \<and> cc ! c' = 0" by blast
    have "find_a_zero_rows m rc cc r = (int r, int c')"
      using found c'(1) by (subst find_a_zero_rows.simps) (simp add: Let_def)
    with c' "1.prems" show ?thesis by blast
  next
    case True
    with cols have none: "\<forall>c'. c' < length m \<longrightarrow> \<not> (m ! r ! c' = 0 \<and> rc ! r = 0 \<and> cc ! c' = 0)"
      by auto
    show ?thesis
    proof (cases "r + 1 \<ge> length m")
      case last: True
      with True have "find_a_zero_rows m rc cc r = (- 1, - 1)"
        by (subst find_a_zero_rows.simps) (simp add: Let_def)
      moreover have "\<forall>r'. r \<le> r' \<and> r' < length m \<longrightarrow> r' = r" using last by auto
      ultimately show ?thesis using none by blast
    next
      case next_row: False
      with True have eq: "find_a_zero_rows m rc cc r = find_a_zero_rows m rc cc (r + 1)"
        by (subst find_a_zero_rows.simps) (simp add: Let_def)
      have lt: "r + 1 < length m" using next_row by simp
      have nn: "\<not> find_a_zero_cols m rc cc r 0 \<noteq> - 1" using True by simp
      from "1.IH" [OF refl nn next_row lt]
      show ?thesis
      proof
        assume a: "find_a_zero_rows m rc cc (r + 1) = (- 1, - 1) \<and>
            (\<forall>r' c'. r + 1 \<le> r' \<and> r' < length m \<and> c' < length m
                \<longrightarrow> \<not> (m ! r' ! c' = 0 \<and> rc ! r' = 0 \<and> cc ! c' = 0))"
        have "\<forall>r' c'. r \<le> r' \<and> r' < length m \<and> c' < length m
                \<longrightarrow> \<not> (m ! r' ! c' = 0 \<and> rc ! r' = 0 \<and> cc ! c' = 0)"
        proof (intro allI impI)
          fix r' c' assume h: "r \<le> r' \<and> r' < length m \<and> c' < length m"
          then have "r' = r \<or> (r + 1 \<le> r' \<and> r' < length m)" by auto
          then show "\<not> (m ! r' ! c' = 0 \<and> rc ! r' = 0 \<and> cc ! c' = 0)"
            using none a h by blast
        qed
        with a eq show ?thesis by simp
      next
        assume "\<exists>r' c'. find_a_zero_rows m rc cc (r + 1) = (int r', int c') \<and> r' < length m
                  \<and> c' < length m \<and> m ! r' ! c' = 0 \<and> rc ! r' = 0 \<and> cc ! c' = 0"
        with eq show ?thesis by simp
      qed
    qed
  qed
qed

lemma find_a_zero_spec:
  assumes "0 < length m"
  shows "(find_a_zero m rc cc = (- 1, - 1) \<and>
            (\<forall>r c. r < length m \<and> c < length m \<longrightarrow> \<not> (m ! r ! c = 0 \<and> rc ! r = 0 \<and> cc ! c = 0)))
         \<or> (\<exists>r c. find_a_zero m rc cc = (int r, int c) \<and> r < length m \<and> c < length m
                  \<and> m ! r ! c = 0 \<and> rc ! r = 0 \<and> cc ! c = 0)"
  using find_a_zero_rows_spec [where r = 0 and m = m and rc = rc and cc = cc, OF assms]
  by (simp add: find_a_zero_def)

lemma star_in_row_iff: "star_in_row (int r) Mk \<longleftrightarrow> (\<exists>c<length Mk. Mk ! r ! c = 1)"
proof -
  have "fold (\<lambda>c tmp. if Mk ! r ! c = 1 then True else tmp) [0..<length Mk] False
          = star_in_row (int r) Mk"
    by (simp only: star_in_row_def nat_int)
  from fold_last_index [where Q = "\<lambda>c. Mk ! r ! c = 1" and g = "\<lambda>c. True", OF this]
  show ?thesis by blast
qed

lemma find_star_in_row_spec:
  "(find_star_in_row (int r) Mk = - 1 \<and> (\<forall>c<length Mk. Mk ! r ! c \<noteq> 1))
   \<or> (\<exists>c<length Mk. find_star_in_row (int r) Mk = int c \<and> Mk ! r ! c = 1)"
proof -
  have "fold (\<lambda>c col. if Mk ! r ! c = 1 then int c else col) [0..<length Mk] (- 1)
          = find_star_in_row (int r) Mk"
    by (simp only: find_star_in_row_def nat_int)
  from fold_last_index [where Q = "\<lambda>c. Mk ! r ! c = 1" and g = int, OF this]
  show ?thesis by blast
qed

subsection \<open>Step 4\<close>

text \<open>A proof rule for the loop of step 4: \<open>I\<close> holds before every search, \<open>Q\<close> of the
  result.\<close>

lemma step4_rule:
  assumes run: "step4 m Mk rc cc r0 c0 = Some res"
    and pos: "0 < length m"
    and init: "I Mk rc cc"
    and len: "\<And>Mk rc cc. I Mk rc cc \<Longrightarrow> length Mk = length m"
    and cover: "\<And>Mk rc cc r c c'. I Mk rc cc \<Longrightarrow> r < length m \<Longrightarrow> c < length m \<Longrightarrow>
        m ! r ! c = 0 \<Longrightarrow> rc ! r = 0 \<Longrightarrow> cc ! c = 0 \<Longrightarrow> c' < length m \<Longrightarrow>
        Mk[r := (Mk ! r)[c := 2]] ! r ! c' = 1 \<Longrightarrow>
        I (Mk[r := (Mk ! r)[c := 2]]) (rc[r := 1]) (cc[c' := 0])"
    and none: "\<And>Mk rc cc. I Mk rc cc \<Longrightarrow>
        (\<forall>r c. r < length m \<and> c < length m \<longrightarrow> \<not> (m ! r ! c = 0 \<and> rc ! r = 0 \<and> cc ! c = 0)) \<Longrightarrow>
        Q (Mk, rc, cc, r0, c0, 6)"
    and found: "\<And>Mk rc cc r c. I Mk rc cc \<Longrightarrow> r < length m \<Longrightarrow> c < length m \<Longrightarrow>
        m ! r ! c = 0 \<Longrightarrow> rc ! r = 0 \<Longrightarrow> cc ! c = 0 \<Longrightarrow>
        (\<forall>c'<length m. Mk[r := (Mk ! r)[c := 2]] ! r ! c' \<noteq> 1) \<Longrightarrow>
        Q (Mk[r := (Mk ! r)[c := 2]], rc, cc, int r, int c, 5)"
  shows "Q res"
proof -
  have "I Mk rc cc \<longrightarrow> (m = m \<and> r0 = r0 \<and> c0 = c0) \<longrightarrow> Q res"
  proof (rule step4.raw_induct [where P = "\<lambda>m' Mk rc cc r0' c0' res.
            I Mk rc cc \<longrightarrow> (m' = m \<and> r0' = r0 \<and> c0' = c0) \<longrightarrow> Q res", OF _ run])
    fix step4' m' Mk rc cc r0' c0' res
    assume IH: "\<And>m' Mk rc cc r0' c0' res. step4' m' Mk rc cc r0' c0' = Some res \<Longrightarrow>
              I Mk rc cc \<longrightarrow> m' = m \<and> r0' = r0 \<and> c0' = c0 \<longrightarrow> Q res"
      and body: "(case find_a_zero m' rc cc of (row, col) \<Rightarrow>
        if row = - 1 then Some (Mk, rc, cc, r0', c0', 6)
        else (let M' = Mk[nat row := (Mk ! nat row)[nat col := 2]]
              in if star_in_row row M'
                 then (let col' = find_star_in_row row M'
                       in step4' m' M' (rc[nat row := 1]) (cc[nat col' := 0]) r0' c0')
                 else Some (M', rc, cc, row, col, 5))) = Some res"
    show "I Mk rc cc \<longrightarrow> m' = m \<and> r0' = r0 \<and> c0' = c0 \<longrightarrow> Q res"
    proof (intro impI)
      assume I: "I Mk rc cc" and eq: "m' = m \<and> r0' = r0 \<and> c0' = c0"
      note spec = find_a_zero_spec [OF pos, of rc cc]
      show "Q res"
      proof (cases "find_a_zero m rc cc = (- 1, - 1)")
        case True
        with spec have "\<forall>r c. r < length m \<and> c < length m
              \<longrightarrow> \<not> (m ! r ! c = 0 \<and> rc ! r = 0 \<and> cc ! c = 0)" by auto
        from none [OF I this] body True eq show ?thesis by simp
      next
        case False
        with spec obtain r c where rc: "find_a_zero m rc cc = (int r, int c)"
          "r < length m" "c < length m" "m ! r ! c = 0" "rc ! r = 0" "cc ! c = 0" by blast
        let ?M = "Mk[r := (Mk ! r)[c := 2]]"
        have lenM: "length ?M = length m" using len [OF I] by simp
        show ?thesis
        proof (cases "star_in_row (int r) ?M")
          case nostar: False
          then have "\<forall>c'<length m. ?M ! r ! c' \<noteq> 1"
            using lenM by (simp add: star_in_row_iff)
          from found [OF I rc(2-6) this] body rc(1) eq nostar show ?thesis
            by (simp add: Let_def)
        next
          case True
          then obtain c' where c': "c' < length m" "find_star_in_row (int r) ?M = int c'"
            "?M ! r ! c' = 1"
            using find_star_in_row_spec [of r ?M] lenM by (auto simp: star_in_row_iff)
          have "step4' m ?M (rc[r := 1]) (cc[c' := 0]) r0 c0 = Some res"
            using body rc(1) eq True c'(2) by (simp add: Let_def)
          from IH [OF this] cover [OF I rc(2-6) c'(1,3)] show ?thesis by simp
        qed
      qed
    qed
  qed
  with init show ?thesis by simp
qed

lemma step4_invD:
  assumes "step4_inv n Mk rc cc"
  shows "square n Mk" and "length rc = n" and "length cc = n"
    and "marks n Mk" and "independent n Mk"
    and "\<And>r c. r < n \<Longrightarrow> c < n \<Longrightarrow> Mk ! r ! c = 1 \<Longrightarrow> cc ! c = 0 \<Longrightarrow> \<exists>c'<n. Mk ! r ! c' = 2"
    and "\<And>r c. r < n \<Longrightarrow> c < n \<Longrightarrow> Mk ! r ! c = 2 \<Longrightarrow> cc ! c = 0"
  using assms by (simp_all add: step4_inv_def)

lemma independent_subset:
  assumes "independent n Mk"
    and "\<And>r c. r < n \<Longrightarrow> c < n \<Longrightarrow> Mk' ! r ! c = 1 \<Longrightarrow> Mk ! r ! c = 1"
  shows "independent n Mk'"
  unfolding independent_def
proof (intro conjI allI impI)
  fix r c c' assume b: "r < n" "c < n" "c' < n" and s: "Mk' ! r ! c = 1" "Mk' ! r ! c' = 1"
  have "Mk ! r ! c = 1" "Mk ! r ! c' = 1" using assms(2) b s by simp_all
  with assms(1) b show "c = c'" unfolding independent_def by blast
next
  fix r r' c assume b: "r < n" "r' < n" "c < n" and s: "Mk' ! r ! c = 1" "Mk' ! r' ! c = 1"
  have "Mk ! r ! c = 1" "Mk ! r' ! c = 1" using assms(2) b s by simp_all
  with assms(1) b show "r = r'" unfolding independent_def by blast
qed

lemma step4_inv_prime:
  assumes inv: "step4_inv n Mk rc cc" and r: "r < n" and c: "c < n" and unc: "cc ! c = 0"
  shows "step4_inv n (Mk[r := (Mk ! r)[c := 2]]) rc cc"
proof -
  let ?M = "Mk[r := (Mk ! r)[c := 2]]"
  note sq = step4_invD(1) [OF inv] and l = step4_invD(2,3) [OF inv]
    and mk = step4_invD(4) [OF inv] and ind = step4_invD(5) [OF inv]
    and i2 = step4_invD(6) [OF inv] and i3 = step4_invD(7) [OF inv]
  have nth: "\<And>r' c'. r' < n \<Longrightarrow> c' < n \<Longrightarrow>
        ?M ! r' ! c' = (if r' = r \<and> c' = c then 2 else Mk ! r' ! c')"
    using nth_upd2 [OF sq r c] by simp
  have star: "\<And>r' c'. r' < n \<Longrightarrow> c' < n \<Longrightarrow> ?M ! r' ! c' = 1 \<Longrightarrow> Mk ! r' ! c' = 1"
    by (simp add: nth split: if_splits)
  have prime: "\<And>r' c'. r' < n \<Longrightarrow> c' < n \<Longrightarrow> Mk ! r' ! c' = 2 \<Longrightarrow> ?M ! r' ! c' = 2"
    by (simp add: nth)
  have "square n ?M" using sq by (rule square_upd2)
  moreover have "marks n ?M"
    unfolding marks_def
  proof (intro allI impI)
    fix r' c' assume b: "r' < n" "c' < n"
    with mk have "Mk ! r' ! c' = 0 \<or> Mk ! r' ! c' = 1 \<or> Mk ! r' ! c' = 2"
      unfolding marks_def by blast
    then show "?M ! r' ! c' = 0 \<or> ?M ! r' ! c' = 1 \<or> ?M ! r' ! c' = 2"
      unfolding nth [OF b] by simp
  qed
  moreover have "independent n ?M"
    by (rule independent_subset [OF ind star])
  moreover have "\<forall>r'<n. \<forall>c'<n. ?M ! r' ! c' = 1 \<and> cc ! c' = 0 \<longrightarrow> (\<exists>c''<n. ?M ! r' ! c'' = 2)"
  proof (intro allI impI)
    fix r' c' assume b: "r' < n" "c' < n" and h: "?M ! r' ! c' = 1 \<and> cc ! c' = 0"
    then have "Mk ! r' ! c' = 1" using star by blast
    with i2 b h obtain c'' where "c'' < n" "Mk ! r' ! c'' = 2" by blast
    with prime b show "\<exists>c''<n. ?M ! r' ! c'' = 2" by blast
  qed
  moreover have "\<forall>r'<n. \<forall>c'<n. ?M ! r' ! c' = 2 \<longrightarrow> cc ! c' = 0"
  proof (intro allI impI)
    fix r' c' assume b: "r' < n" "c' < n" and h: "?M ! r' ! c' = 2"
    show "cc ! c' = 0"
    proof (cases "r' = r \<and> c' = c")
      case True
      with unc show ?thesis by simp
    next
      case False
      with h b have "Mk ! r' ! c' = 2" by (simp add: nth)
      with i3 b show ?thesis by blast
    qed
  qed
  ultimately show ?thesis using l by (simp add: step4_inv_def)
qed

lemma step4_inv_cover:
  assumes inv: "step4_inv n Mk rc cc" and r: "r < n" and c: "c < n" and c': "c' < n"
    and prime: "Mk ! r ! c = 2" and star: "Mk ! r ! c' = 1"
  shows "step4_inv n Mk (rc[r := 1]) (cc[c' := 0])"
proof -
  note sq = step4_invD(1) [OF inv] and l = step4_invD(2,3) [OF inv]
    and mk = step4_invD(4) [OF inv] and ind = step4_invD(5) [OF inv]
    and i2 = step4_invD(6) [OF inv] and i3 = step4_invD(7) [OF inv]
  have cc: "\<And>k. k < n \<Longrightarrow> cc[c' := 0] ! k = (if k = c' then 0 else cc ! k)"
    using l c' by (simp add: nth_update_if)
  have "\<forall>r1<n. \<forall>c1<n. Mk ! r1 ! c1 = 1 \<and> cc[c' := 0] ! c1 = 0 \<longrightarrow> (\<exists>c2<n. Mk ! r1 ! c2 = 2)"
  proof (intro allI impI)
    fix r1 c1 assume b: "r1 < n" "c1 < n" and h: "Mk ! r1 ! c1 = 1 \<and> cc[c' := 0] ! c1 = 0"
    show "\<exists>c2<n. Mk ! r1 ! c2 = 2"
    proof (cases "c1 = c'")
      case True
      with h star b r c' ind have "r1 = r" unfolding independent_def by blast
      with prime c show ?thesis by blast
    next
      case False
      with h b cc have "cc ! c1 = 0" by simp
      with i2 b h show ?thesis by blast
    qed
  qed
  moreover have "\<forall>r1<n. \<forall>c1<n. Mk ! r1 ! c1 = 2 \<longrightarrow> cc[c' := 0] ! c1 = 0"
  proof (intro allI impI)
    fix r1 c1 assume b: "r1 < n" "c1 < n" and h: "Mk ! r1 ! c1 = 2"
    with i3 have "cc ! c1 = 0" by blast
    with b show "cc[c' := 0] ! c1 = 0" by (simp add: cc)
  qed
  ultimately show ?thesis using sq l mk ind by (simp add: step4_inv_def)
qed

lemma step4_result:
  assumes run: "step4 m Mk rc cc r0 c0 = Some (M', rc', cc', r0', c0', st)"
    and n: "length m = n" "0 < n" and inv: "step4_inv n Mk rc cc"
  shows "step4_inv n M' rc' cc' \<and>
         (st = 6 \<or> st = 5 \<and> (\<exists>r<n. \<exists>c<n. r0' = int r \<and> c0' = int c \<and> M' ! r ! c = 2
                                  \<and> (\<forall>c'<n. M' ! r ! c' \<noteq> 1)))"
proof -
  let ?Q = "\<lambda>(M', rc', cc', r0', c0', st). step4_inv n M' rc' cc' \<and>
         (st = 6 \<or> st = 5 \<and> (\<exists>r<n. \<exists>c<n. r0' = int r \<and> c0' = int c \<and> M' ! r ! c = 2
                                  \<and> (\<forall>c'<n. M' ! r ! c' \<noteq> 1)))"
  have "?Q (M', rc', cc', r0', c0', st)"
  proof (rule step4_rule [where I = "step4_inv n" and Q = ?Q, OF run])
    show "0 < length m" using n by simp
    show "step4_inv n Mk rc cc" by (rule inv)
  next
    fix Mk rc cc assume "step4_inv n Mk rc cc"
    then show "length Mk = length m" using n by (simp add: step4_inv_def square_def)
  next
    fix Mk rc cc r c c'
    assume I: "step4_inv n Mk rc cc" and b: "r < length m" "c < length m" "c' < length m"
      and unc: "cc ! c = 0" and star: "Mk[r := (Mk ! r)[c := 2]] ! r ! c' = 1"
    let ?M = "Mk[r := (Mk ! r)[c := 2]]"
    have p: "step4_inv n ?M rc cc" using step4_inv_prime [OF I _ _ unc] b n by simp
    have "?M ! r ! c = 2"
      using nth_upd2 [of n Mk r c r c 2] I b n by (simp add: step4_inv_def)
    from step4_inv_cover [OF p _ _ _ this star] b n
    show "step4_inv n ?M (rc[r := 1]) (cc[c' := 0])" by simp
  next
    fix Mk rc cc assume "step4_inv n Mk rc cc"
    then show "?Q (Mk, rc, cc, r0, c0, 6)" by simp
  next
    fix Mk rc cc r c
    assume I: "step4_inv n Mk rc cc" and b: "r < length m" "c < length m"
      and unc: "cc ! c = 0" and nostar: "\<forall>c'<length m. Mk[r := (Mk ! r)[c := 2]] ! r ! c' \<noteq> 1"
    let ?M = "Mk[r := (Mk ! r)[c := 2]]"
    have p: "step4_inv n ?M rc cc" using step4_inv_prime [OF I _ _ unc] b n by simp
    have "?M ! r ! c = 2"
      using nth_upd2 [of n Mk r c r c 2] I b n by (simp add: step4_inv_def)
    with p nostar b n show "?Q (?M, rc, cc, int r, int c, 5)" by auto
  qed
  then show ?thesis by simp
qed

subsection \<open>The searches of step 5\<close>

lemma fold_last_index_init:
  "\<exists>j<n. Q j \<Longrightarrow>
     fold (\<lambda>j acc. if Q j then g j else acc) [0..<n] a
       = fold (\<lambda>j acc. if Q j then g j else acc) [0..<n] b"
proof (induction n)
  case 0
  then show ?case by simp
next
  case (Suc n)
  show ?case
  proof (cases "Q n")
    case True
    then show ?thesis by simp
  next
    case False
    with Suc.prems have "\<exists>j<n. Q j" by (metis less_Suc_eq)
    from Suc.IH [OF this] False show ?thesis by simp
  qed
qed

lemma in_mask_square: "square n Mk \<Longrightarrow> r < n \<Longrightarrow> c < n \<Longrightarrow> in_mask Mk (int r) (int c)"
  by (simp add: in_mask_def square_def)

lemma find_star_in_col_spec:
  assumes "square n Mk" "c < n"
  shows "(find_star_in_col (int c) Mk = Inr (- 1) \<and> (\<forall>r<n. Mk ! r ! c \<noteq> 1))
         \<or> (\<exists>r<n. find_star_in_col (int c) Mk = Inr (int r) \<and> Mk ! r ! c = 1)"
proof -
  have len: "length Mk = n" using assms(1) by (simp add: square_def)
  have "list_all (\<lambda>i. in_mask Mk (int i) (int c)) [0..<length Mk]"
    using assms len by (simp add: list_all_iff in_mask_square)
  then have eq: "find_star_in_col (int c) Mk
      = Inr (fold (\<lambda>i r. if Mk ! i ! c = 1 then int i else r) [0..<n] (- 1))"
    using len by (simp add: find_star_in_col_def)
  from fold_last_index [where Q = "\<lambda>i. Mk ! i ! c = 1" and g = int and n = n and a = "- 1", OF refl]
  show ?thesis unfolding eq by auto
qed

lemma find_prime_in_row_spec:
  assumes "length Mk = n"
  shows "(find_prime_in_row (int r) c0 Mk = c0 \<and> (\<forall>c<n. Mk ! r ! c \<noteq> 2))
         \<or> (\<exists>c<n. find_prime_in_row (int r) c0 Mk = int c \<and> Mk ! r ! c = 2)"
proof -
  have "fold (\<lambda>j c'. if Mk ! r ! j = 2 then int j else c') [0..<n] c0
          = find_prime_in_row (int r) c0 Mk"
    using assms by (simp only: find_prime_in_row_def nat_int)
  from fold_last_index [where Q = "\<lambda>j. Mk ! r ! j = 2" and g = int, OF this]
  show ?thesis by blast
qed

lemma find_prime_in_row_init:
  assumes "length Mk = n" "c < n" "Mk ! r ! c = 2"
  shows "find_prime_in_row (int r) c0 Mk = find_prime_in_row (int r) c1 Mk"
proof -
  have "\<exists>j<n. Mk ! r ! j = 2" using assms by blast
  from fold_last_index_init [where Q = "\<lambda>j. Mk ! r ! j = 2" and g = int, OF this]
  show ?thesis using assms(1) by (simp only: find_prime_in_row_def nat_int)
qed

text \<open>A list that follows a partial successor function to its end has no repetition.\<close>

lemma chain_shift:
  assumes chain: "\<And>i. Suc i < length cs \<Longrightarrow> f (cs ! i) = Some (cs ! Suc i)"
    and eq: "cs ! i = cs ! j" and j: "j + m < length cs" and ij: "i \<le> j"
  shows "cs ! (i + m) = cs ! (j + m)"
  using j
proof (induction m)
  case 0
  then show ?case using eq by simp
next
  case (Suc m)
  then have "cs ! (i + m) = cs ! (j + m)" by simp
  moreover have "f (cs ! (i + m)) = Some (cs ! Suc (i + m))"
    using chain [of "i + m"] Suc.prems ij by simp
  moreover have "f (cs ! (j + m)) = Some (cs ! Suc (j + m))"
    using chain [of "j + m"] Suc.prems by simp
  ultimately show ?case by simp
qed

lemma chain_distinct:
  assumes chain: "\<And>i. Suc i < length cs \<Longrightarrow> f (cs ! i) = Some (cs ! Suc i)"
    and stop: "cs \<noteq> [] \<Longrightarrow> f (last cs) = None"
  shows "distinct cs"
proof (rule ccontr)
  assume "\<not> distinct cs"
  then obtain i j where ij: "i < j" "j < length cs" "cs ! i = cs ! j"
    by (metis distinct_conv_nth nat_neq_iff)
  define m where "m = length cs - 1 - j"
  have "cs ! (i + m) = cs ! (j + m)"
    using chain_shift [of cs f i j m] chain ij by (simp add: m_def)
  moreover have jm: "j + m = length cs - 1" using ij by (simp add: m_def)
  moreover have "cs \<noteq> []" using ij by auto
  moreover have "Suc (i + m) < length cs" using ij jm by simp
  ultimately have "f (cs ! (i + m)) = None" "f (cs ! (i + m)) = Some (cs ! Suc (i + m))"
    using stop chain [of "i + m"] by (simp_all add: last_conv_nth)
  then show False by simp
qed

subsection \<open>The alternating path\<close>

lemma path_stars_Cons:
  "qs \<noteq> [] \<Longrightarrow> path_stars (q # qs) = (fst (hd qs), snd q) # path_stars qs"
proof -
  assume ne: "qs \<noteq> []"
  then have "0 < length qs" by simp
  then have "[0..<length qs] = 0 # [Suc 0..<length qs]" by (rule upt_conv_Cons)
  moreover have "[Suc 0..<length qs] = map Suc [0..<length qs - 1]"
    using ne by (simp add: map_Suc_upt)
  ultimately have "[0..<length (q # qs) - 1] = 0 # map Suc [0..<length qs - 1]"
    by simp
  then show ?thesis using ne by (simp add: path_stars_def hd_conv_nth comp_def)
qed

lemma path_stars_single [simp]: "path_stars [q] = []"
  by (simp add: path_stars_def)

lemma alt_path_shape:
  "alt_path Mk r c qs zs \<Longrightarrow>
     qs \<noteq> [] \<and> hd qs = (r, c) \<and> set zs = set qs \<union> set (path_stars qs)
     \<and> length zs + 1 = 2 * length qs"
proof (induction rule: alt_path.induct)
  case (stop c r)
  then show ?case by simp
next
  case (more c r' c' qs zs r)
  then show ?case by (auto simp: path_stars_Cons)
qed

lemma alt_path_chain:
  "alt_path Mk r c qs zs \<Longrightarrow>
     (\<forall>i. Suc i < length qs \<longrightarrow>
         find_star_in_col (int (snd (qs ! i))) Mk = Inr (int (fst (qs ! Suc i)))
         \<and> find_prime_in_row (int (fst (qs ! Suc i))) (- 1) Mk = int (snd (qs ! Suc i)))
     \<and> find_star_in_col (int (snd (last qs))) Mk = Inr (- 1)"
proof (induction rule: alt_path.induct)
  case (stop c r)
  then show ?case by simp
next
  case (more c r' c' qs zs r)
  from alt_path_shape [OF more.hyps(3)] have ne: "qs \<noteq> []" and "hd qs = (r', c')"
    by simp_all
  then have hd: "qs ! 0 = (r', c')" by (simp add: hd_conv_nth)
  have "\<forall>i. Suc i < length ((r, c) # qs) \<longrightarrow>
         find_star_in_col (int (snd (((r, c) # qs) ! i))) Mk
           = Inr (int (fst (((r, c) # qs) ! Suc i)))
         \<and> find_prime_in_row (int (fst (((r, c) # qs) ! Suc i))) (- 1) Mk
           = int (snd (((r, c) # qs) ! Suc i))"
  proof (intro allI impI)
    fix i assume i: "Suc i < length ((r, c) # qs)"
    show "find_star_in_col (int (snd (((r, c) # qs) ! i))) Mk
           = Inr (int (fst (((r, c) # qs) ! Suc i)))
         \<and> find_prime_in_row (int (fst (((r, c) # qs) ! Suc i))) (- 1) Mk
           = int (snd (((r, c) # qs) ! Suc i))"
    proof (cases i)
      case 0
      then show ?thesis using more.hyps(1,2) hd by simp
    next
      case (Suc k)
      then show ?thesis using more.IH i by simp
    qed
  qed
  then show ?case using more.IH ne by simp
qed

lemma next_col_chain:
  assumes "alt_path Mk r c qs zs"
  shows "Suc i < length (map snd qs) \<Longrightarrow> next_col Mk (map snd qs ! i) = Some (map snd qs ! Suc i)"
    and "next_col Mk (last (map snd qs)) = None"
proof -
  note ch = alt_path_chain [OF assms]
  from alt_path_shape [OF assms] have ne: "qs \<noteq> []" by simp
  show "next_col Mk (last (map snd qs)) = None"
    using ch ne by (simp add: next_col_def last_map)
  assume "Suc i < length (map snd qs)"
  then have i: "Suc i < length qs" by simp
  with ch have "find_star_in_col (int (snd (qs ! i))) Mk = Inr (int (fst (qs ! Suc i)))"
    "find_prime_in_row (int (fst (qs ! Suc i))) (- 1) Mk = int (snd (qs ! Suc i))" by blast+
  then show "next_col Mk (map snd qs ! i) = Some (map snd qs ! Suc i)"
    using i by (simp add: next_col_def Let_def)
qed

lemma alt_path_distinct_cols:
  assumes "alt_path Mk r c qs zs"
  shows "distinct (map snd qs)"
proof (rule chain_distinct [where f = "next_col Mk"])
  fix i assume "Suc i < length (map snd qs)"
  then show "next_col Mk (map snd qs ! i) = Some (map snd qs ! Suc i)"
    by (rule next_col_chain(1) [OF assms])
next
  show "next_col Mk (last (map snd qs)) = None" by (rule next_col_chain(2) [OF assms])
qed

lemma map_nth_take: "k \<le> length xs \<Longrightarrow> map (\<lambda>i. xs ! i) [0..<k] = take k xs"
proof -
  assume k: "k \<le> length xs"
  have "take k xs = take k (map (\<lambda>i. xs ! i) [0..<length xs])" by (simp add: map_nth)
  also have "\<dots> = map (\<lambda>i. xs ! i) (take k [0..<length xs])" by (rule take_map)
  also have "take k [0..<length xs] = [0..<k]" using k by simp
  finally show ?thesis by simp
qed

lemma alt_path_primes:
  assumes "alt_path Mk r c qs zs" "square n Mk" "r < n" "c < n" "Mk ! r ! c = 2"
  shows "\<forall>q\<in>set qs. fst q < n \<and> snd q < n \<and> Mk ! fst q ! snd q = 2"
  using assms
proof (induction rule: alt_path.induct)
  case (stop c r)
  then show ?case by simp
next
  case (more c r' c' qs zs r)
  have len: "length Mk = n" using more.prems(1) by (simp add: square_def)
  have r': "r' < n"
    using find_star_in_col_spec [OF more.prems(1,3)] more.hyps(1) by auto
  have "c' < n \<and> Mk ! r' ! c' = 2"
    using find_prime_in_row_spec [OF len, of r' "- 1"] more.hyps(2) by auto
  with more.IH [OF more.prems(1) r'] more.prems show ?case by simp
qed

lemma alt_path_stars:
  assumes ap: "alt_path Mk r c qs zs" and sq: "square n Mk" and b: "r < n" "c < n"
    and p: "Mk ! r ! c = 2"
  shows "\<forall>s\<in>set (path_stars qs). fst s < n \<and> snd s < n \<and> Mk ! fst s ! snd s = 1"
proof
  fix s assume "s \<in> set (path_stars qs)"
  then obtain i where "i < length qs - 1" and s: "s = (fst (qs ! Suc i), snd (qs ! i))"
    by (auto simp: path_stars_def)
  then have i: "Suc i < length qs" by simp
  have ci: "snd (qs ! i) < n" using alt_path_primes [OF ap sq b p] i by simp
  have "find_star_in_col (int (snd (qs ! i))) Mk = Inr (int (fst (qs ! Suc i)))"
    using alt_path_chain [OF ap] i by blast
  with find_star_in_col_spec [OF sq ci]
  have "fst (qs ! Suc i) < n \<and> Mk ! fst (qs ! Suc i) ! snd (qs ! i) = 1" by auto
  with ci s show "fst s < n \<and> snd s < n \<and> Mk ! fst s ! snd s = 1" by simp
qed

lemma alt_path_last:
  assumes ap: "alt_path Mk r c qs zs" and sq: "square n Mk" and b: "r < n" "c < n"
    and p: "Mk ! r ! c = 2"
  shows "\<forall>a<n. Mk ! a ! snd (last qs) \<noteq> 1"
proof -
  from alt_path_shape [OF ap] have ne: "qs \<noteq> []" by simp
  then have "snd (last qs) < n" using alt_path_primes [OF ap sq b p] by simp
  from find_star_in_col_spec [OF sq this] alt_path_chain [OF ap]
  show ?thesis by auto
qed

lemma alt_path_distinct:
  assumes ap: "alt_path Mk r c qs zs" and sq: "square n Mk" and b: "r < n" "c < n"
    and p: "Mk ! r ! c = 2"
  shows "distinct zs"
proof -
  note sh = alt_path_shape [OF ap]
  note dc = alt_path_distinct_cols [OF ap]
  have dq: "distinct qs" using dc by (simp add: distinct_map)
  have "map snd (path_stars qs) = map (\<lambda>i. map snd qs ! i) [0..<length qs - 1]"
    by (simp add: path_stars_def comp_def)
  also have "\<dots> = take (length qs - 1) (map snd qs)"
    by (rule map_nth_take) simp
  finally have "distinct (map snd (path_stars qs))" using dc by simp
  then have ds: "distinct (path_stars qs)" by (simp add: distinct_map)
  have disj: "set qs \<inter> set (path_stars qs) = {}"
    using alt_path_primes [OF ap sq b p] alt_path_stars [OF ap sq b p] by fastforce
  have "card (set zs) = card (set qs) + card (set (path_stars qs))"
    using sh disj by (simp add: card_Un_disjoint)
  also have "\<dots> = length qs + (length qs - 1)"
    using distinct_card [OF dq] distinct_card [OF ds] by (simp add: path_stars_def)
  also have "\<dots> = length zs" using sh by (cases qs) simp_all
  finally show ?thesis by (rule card_distinct)
qed

lemma step5_loop_path:
  assumes "step5_loop Mk p pc cst = Inr (p', pc')"
    and "square n Mk"
    and "\<forall>r<n. \<forall>c<n. \<forall>r'<n. Mk ! r ! c = 2 \<and> Mk ! r' ! c = 1 \<longrightarrow> (\<exists>c'<n. Mk ! r' ! c' = 2)"
    and "1 \<le> pc" "pc \<le> length p" "p ! (pc - 1) = (int r, int c)"
    and "r < n" "c < n" "Mk ! r ! c = 2"
  shows "\<exists>qs zs. alt_path Mk r c qs zs \<and> length p' = length p \<and> pc' = pc - 1 + length zs
           \<and> pc' \<le> length p
           \<and> take pc' p' = take (pc - 1) p @ map (map_prod int int) zs"
  using assms
proof (induction Mk p pc cst arbitrary: r c rule: step5_loop.induct)
  case (1 Mk p pc cst)
  note sq = "1.prems"(2) and J = "1.prems"(3)
  have len: "length Mk = n" using sq by (simp add: square_def)
  have last: "snd (p ! (pc - 1)) = int c" using "1.prems"(6) by simp
  have tk: "take pc p = take (pc - 1) p @ [(int r, int c)]"
    using "1.prems"(4,5,6) take_Suc_conv_app_nth [of "pc - 1" p] by simp
  from find_star_in_col_spec [OF sq "1.prems"(8)]
  show ?case
  proof
    assume none: "find_star_in_col (int c) Mk = Inr (- 1) \<and> (\<forall>r<n. Mk ! r ! c \<noteq> 1)"
    then have "step5_loop Mk p pc cst = Inr (p, pc)"
      using last by (subst step5_loop.simps) simp
    with "1.prems"(1) have eq: "p' = p" "pc' = pc" by simp_all
    have "alt_path Mk r c [(r, c)] [(r, c)]" using none by (simp add: alt_path.stop)
    moreover have "pc = pc - 1 + length [(r, c)]" using "1.prems"(4) by simp
    ultimately show ?thesis using eq tk "1.prems"(5) by (intro exI [of _ "[(r, c)]"]) simp
  next
    assume "\<exists>r'<n. find_star_in_col (int c) Mk = Inr (int r') \<and> Mk ! r' ! c = 1"
    then obtain r' where r': "r' < n" "find_star_in_col (int c) Mk = Inr (int r')"
      "Mk ! r' ! c = 1" by blast
    have star: "find_star_in_col (snd (p ! (pc - 1))) Mk = Inr (int r')" using r'(2) last by simp
    have gt: "int r' > - 1" by simp
    obtain c' where c': "c' < n" "Mk ! r' ! c' = 2" using J "1.prems"(7,8,9) r' by blast
    then obtain c'' where c'': "c'' < n" "find_prime_in_row (int r') cst Mk = int c''"
      "Mk ! r' ! c'' = 2"
      using find_prime_in_row_spec [OF len, of r' cst] by auto
    have canon: "find_prime_in_row (int r') (- 1) Mk = int c''"
      using find_prime_in_row_init [OF len c'(1,2), of "- 1" cst] c''(2) by simp
    show ?thesis
    proof (cases "path_set p pc (int r', snd (p ! (pc - 1)))")
      case (Inl e)
      with star gt "1.prems"(1) show ?thesis
        by (subst (asm) step5_loop.simps) simp
    next
      case p1: (Inr p1)
      then have pc1: "pc < length p" and p1_eq: "p1 = p[pc := (int r', int c)]"
        using last by (auto simp: path_set_def split: if_splits)
      have fst1: "fst (p1 ! pc) = int r'" using pc1 p1_eq by simp
      define cn where "cn = find_prime_in_row (fst (p1 ! pc)) cst Mk"
      have cn: "cn = int c''" using c''(2) fst1 by (simp add: cn_def)
      show ?thesis
      proof (cases "path_set p1 (pc + 1) (fst (p1 ! pc), cn)")
        case (Inl e)
        with star gt p1 "1.prems"(1) show ?thesis
          by (subst (asm) step5_loop.simps) (simp add: cn_def Let_def)
      next
        case p2: (Inr p2)
        then have pc2: "pc + 1 < length p" and p2_eq: "p2 = p1[pc + 1 := (int r', int c'')]"
          using fst1 cn p1_eq by (auto simp: path_set_def split: if_splits)
        have rec: "step5_loop Mk p2 (pc + 2) cn = Inr (p', pc')"
          using star gt p1 p2 "1.prems"(1)
          by (subst (asm) step5_loop.simps) (simp add: cn_def Let_def)
        have l2: "length p2 = length p" using p1_eq p2_eq by simp
        have at: "p2 ! (pc + 2 - 1) = (int r', int c'')" using p2_eq p1_eq pc2 by simp
        from "1.IH" [OF star gt p1 cn_def p2 rec sq J _ _ at r'(1) c''(1,3)] pc2 l2
        obtain qs zs where ih: "alt_path Mk r' c'' qs zs" "length p' = length p"
          "pc' = pc + 1 + length zs" "pc' \<le> length p"
          "take pc' p' = take (pc + 1) p2 @ map (map_prod int int) zs"
          by auto
        have "take (pc + 1) p2 = take pc p @ [(int r', int c)]"
          using p2_eq p1_eq pc1 by (simp add: take_Suc_conv_app_nth)
        then have "take pc' p' = take (pc - 1) p
                      @ map (map_prod int int) ((r, c) # (r', c) # zs)"
          using ih(5) tk by simp
        moreover have "alt_path Mk r c ((r, c) # qs) ((r, c) # (r', c) # zs)"
          using alt_path.more [OF r'(2) canon ih(1)] .
        moreover have "pc' = pc - 1 + length ((r, c) # (r', c) # zs)"
          using ih(3) "1.prems"(4) by simp
        ultimately show ?thesis using ih(2,4) by blast
      qed
    qed
  qed
qed

subsection \<open>Augmenting along the path\<close>

lemma augment_cell_flip:
  assumes "square n Mk" "a < n" "b < n"
  shows "augment_cell (map_prod int int (a, b)) (Inr Mk)
           = Inr (Mk[a := (Mk ! a)[b := (if Mk ! a ! b = 1 then 0 else 1)]])"
  using assms by (simp add: augment_cell_def in_mask_square)

lemma fold_augment_cells:
  assumes "distinct zs" "\<forall>z\<in>set zs. fst z < n \<and> snd z < n" "square n M0"
  shows "\<exists>M1. fold augment_cell (map (map_prod int int) zs) (Inr M0) = Inr M1 \<and> square n M1
           \<and> (\<forall>a<n. \<forall>b<n. M1 ! a ! b
                 = (if (a, b) \<in> set zs then (if M0 ! a ! b = 1 then 0 else 1) else M0 ! a ! b))"
  using assms
proof (induction zs arbitrary: M0)
  case Nil
  then show ?case by simp
next
  case (Cons z zs)
  obtain a b where z: "z = (a, b)" by (cases z)
  have ab: "a < n" "b < n" using Cons.prems(2) z by simp_all
  let ?M = "M0[a := (M0 ! a)[b := (if M0 ! a ! b = 1 then 0 else 1)]]"
  have sqM: "square n ?M" using Cons.prems(3) by (rule square_upd2)
  have nthM: "\<And>a' b'. a' < n \<Longrightarrow> b' < n \<Longrightarrow> ?M ! a' ! b'
       = (if a' = a \<and> b' = b then (if M0 ! a ! b = 1 then 0 else 1) else M0 ! a' ! b')"
    using nth_upd2 [OF Cons.prems(3) ab] by simp
  from Cons.IH [OF _ _ sqM] Cons.prems(1,2)
  obtain M1 where M1: "fold augment_cell (map (map_prod int int) zs) (Inr ?M) = Inr M1"
    "square n M1"
    "\<And>a' b'. a' < n \<Longrightarrow> b' < n \<Longrightarrow> M1 ! a' ! b'
        = (if (a', b') \<in> set zs then (if ?M ! a' ! b' = 1 then 0 else 1) else ?M ! a' ! b')"
    by auto
  have "fold augment_cell (map (map_prod int int) (z # zs)) (Inr M0) = Inr M1"
    using M1(1) augment_cell_flip [OF Cons.prems(3) ab] z by simp
  moreover have "\<forall>a'<n. \<forall>b'<n. M1 ! a' ! b'
      = (if (a', b') \<in> set (z # zs) then (if M0 ! a' ! b' = 1 then 0 else 1) else M0 ! a' ! b')"
  proof (intro allI impI)
    fix a' b' assume b': "a' < n" "b' < n"
    show "M1 ! a' ! b'
      = (if (a', b') \<in> set (z # zs) then (if M0 ! a' ! b' = 1 then 0 else 1) else M0 ! a' ! b')"
    proof (cases "(a', b') = (a, b)")
      case True
      then have "(a', b') \<notin> set zs" using Cons.prems(1) z by auto
      then show ?thesis using M1(3) [OF b'] nthM [OF b'] True z by simp
    next
      case False
      then show ?thesis using M1(3) [OF b'] nthM [OF b'] z by auto
    qed
  qed
  ultimately show ?case using M1(2) by blast
qed

lemma augment_path_take:
  assumes "pc \<le> length p"
  shows "augment_path p pc Mk = fold augment_cell (take pc p) (Inr Mk)"
proof -
  have "fold (\<lambda>k. augment_cell (p ! k)) [0..<pc] (Inr Mk)
          = fold augment_cell (map (\<lambda>k. p ! k) [0..<pc]) (Inr Mk)"
    by (simp add: fold_map comp_def)
  then show ?thesis using map_nth_take [OF assms] by (simp add: augment_path_def)
qed

lemma erase_primes_nth:
  assumes "square n Mk" "a < n" "b < n"
  shows "erase_primes Mk ! a ! b = (if Mk ! a ! b = 2 then 0 else Mk ! a ! b)"
  using assms by (simp add: erase_primes_def square_def)

lemma square_erase_primes: "square n Mk \<Longrightarrow> square n (erase_primes Mk)"
  by (simp add: erase_primes_def square_def)

text \<open>Starring the primed cells of an alternating path and unstarring its starred cells
  keeps the starred cells independent.\<close>

lemma augmented_independent:
  assumes ind: "independent n Mk"
    and pr: "\<forall>q\<in>set qs. fst q < n \<and> snd q < n \<and> Mk ! fst q ! snd q = 2"
    and st: "\<forall>s\<in>set (path_stars qs). fst s < n \<and> snd s < n \<and> Mk ! fst s ! snd s = 1"
    and dc: "distinct (map snd qs)"
    and last: "\<forall>a<n. Mk ! a ! snd (last qs) \<noteq> 1"
    and hd: "qs \<noteq> []" "\<forall>b<n. Mk ! fst (hd qs) ! b \<noteq> 1"
    and new: "\<And>a b. a < n \<Longrightarrow> b < n \<Longrightarrow>
                Mk' ! a ! b = 1 \<longleftrightarrow> (a, b) \<in> set qs \<or> (Mk ! a ! b = 1 \<and> (a, b) \<notin> set (path_stars qs))"
  shows "independent n Mk'"
proof -
  have star_at: "\<And>i. Suc i < length qs \<Longrightarrow>
      (fst (qs ! Suc i), snd (qs ! i)) \<in> set (path_stars qs)"
    by (simp add: path_stars_def)
  have rows: "\<And>a b b'. a < n \<Longrightarrow> b < n \<Longrightarrow> b' < n \<Longrightarrow> Mk ! a ! b = 1 \<Longrightarrow> Mk ! a ! b' = 1
      \<Longrightarrow> b = b'"
    and cols: "\<And>a a' b. a < n \<Longrightarrow> a' < n \<Longrightarrow> b < n \<Longrightarrow> Mk ! a ! b = 1 \<Longrightarrow> Mk ! a' ! b = 1
      \<Longrightarrow> a = a'"
    using ind unfolding independent_def by blast+
  have COL: "(a, snd q) \<in> set (path_stars qs)"
    if q: "q \<in> set qs" and a: "a < n" "Mk ! a ! snd q = 1" for q a
  proof -
    from q obtain i where i: "i < length qs" "q = qs ! i" by (auto simp: in_set_conv_nth)
    show ?thesis
    proof (cases "Suc i < length qs")
      case False
      with i have "i = length qs - 1" by simp
      with i have "q = last qs" using hd(1) by (simp add: last_conv_nth)
      with last a show ?thesis by blast
    next
      case True
      let ?s = "(fst (qs ! Suc i), snd (qs ! i))"
      have s: "?s \<in> set (path_stars qs)" using star_at [OF True] .
      from bspec [OF st s]
      have "fst (qs ! Suc i) < n" "snd (qs ! i) < n" "Mk ! fst (qs ! Suc i) ! snd (qs ! i) = 1"
        by simp_all
      with cols [of a "fst (qs ! Suc i)" "snd (qs ! i)"] a i have "a = fst (qs ! Suc i)" by simp
      with s i show ?thesis by simp
    qed
  qed
  have ROW: "(fst q, b) \<in> set (path_stars qs)"
    if q: "q \<in> set qs" and b: "b < n" "Mk ! fst q ! b = 1" for q b
  proof -
    from q obtain i where i: "i < length qs" "q = qs ! i" by (auto simp: in_set_conv_nth)
    show ?thesis
    proof (cases i)
      case 0
      with i hd(1) have "q = hd qs" by (simp add: hd_conv_nth)
      with hd(2) b show ?thesis by blast
    next
      case (Suc k)
      let ?s = "(fst (qs ! Suc k), snd (qs ! k))"
      have s: "?s \<in> set (path_stars qs)" using star_at [of k] i Suc by simp
      from bspec [OF st s]
      have "fst (qs ! Suc k) < n" "snd (qs ! k) < n" "Mk ! fst (qs ! Suc k) ! snd (qs ! k) = 1"
        by simp_all
      with rows [of "fst q" b "snd (qs ! k)"] b i Suc have "b = snd (qs ! k)" by simp
      with s i Suc show ?thesis by simp
    qed
  qed
  have COLD: "q1 = q2" if "q1 \<in> set qs" "q2 \<in> set qs" "snd q1 = snd q2" for q1 q2
    using dc that by (auto simp: distinct_map inj_on_def)
  have aux: "fst (qs ! i) \<noteq> fst (qs ! j)" if ij: "i < j" "j < length qs" for i j
  proof
    assume eq: "fst (qs ! i) = fst (qs ! j)"
    from ij obtain l where l: "j = Suc l" by (cases j) auto
    have sl: "(fst (qs ! Suc l), snd (qs ! l)) \<in> set (path_stars qs)"
      using star_at [of l] ij l by simp
    from bspec [OF st sl] have sl': "fst (qs ! Suc l) < n" "snd (qs ! l) < n"
      "Mk ! fst (qs ! Suc l) ! snd (qs ! l) = 1" by simp_all
    show False
    proof (cases i)
      case 0
      with hd(1) have "qs ! i = hd qs" by (simp add: hd_conv_nth)
      with hd(2) sl' eq l show False by auto
    next
      case (Suc k)
      have sk: "(fst (qs ! Suc k), snd (qs ! k)) \<in> set (path_stars qs)"
        using star_at [of k] ij Suc by simp
      from bspec [OF st sk] have sk': "fst (qs ! Suc k) < n" "snd (qs ! k) < n"
        "Mk ! fst (qs ! Suc k) ! snd (qs ! k) = 1" by simp_all
      have "snd (qs ! k) = snd (qs ! l)"
        using rows [of "fst (qs ! Suc k)" "snd (qs ! k)" "snd (qs ! l)"] sk' sl' eq Suc l
        by simp
      then have "map snd qs ! k = map snd qs ! l" using ij Suc l by simp
      moreover have "k < length (map snd qs)" "l < length (map snd qs)" using ij Suc l by simp_all
      ultimately have "k = l" using nth_eq_iff_index_eq [OF dc, of k l] by simp
      with ij Suc l show False by simp
    qed
  qed
  have ROWD: "q1 = q2" if q: "q1 \<in> set qs" "q2 \<in> set qs" "fst q1 = fst q2" for q1 q2
  proof -
    from q obtain i j where i: "i < length qs" "q1 = qs ! i" and j: "j < length qs" "q2 = qs ! j"
      by (auto simp: in_set_conv_nth)
    have "i = j"
    proof (rule ccontr)
      assume "i \<noteq> j"
      then have "i < j \<or> j < i" by auto
      then show False using aux [of i j] aux [of j i] i j q(3) by auto
    qed
    with i j show ?thesis by simp
  qed
  show ?thesis
    unfolding independent_def
  proof (intro conjI allI impI)
    fix a b b' assume b: "a < n" "b < n" "b' < n" and s: "Mk' ! a ! b = 1" "Mk' ! a ! b' = 1"
    from s b new have c1: "(a, b) \<in> set qs \<or> (Mk ! a ! b = 1 \<and> (a, b) \<notin> set (path_stars qs))"
      and c2: "(a, b') \<in> set qs \<or> (Mk ! a ! b' = 1 \<and> (a, b') \<notin> set (path_stars qs))"
      by blast+
    show "b = b'"
    proof (cases "(a, b) \<in> set qs")
      case in1: True
      show ?thesis
      proof (cases "(a, b') \<in> set qs")
        case True
        with in1 ROWD [of "(a, b)" "(a, b')"] show ?thesis by simp
      next
        case False
        with c2 have "Mk ! a ! b' = 1" "(a, b') \<notin> set (path_stars qs)" by simp_all
        with ROW [OF in1, of b'] b show ?thesis by simp
      qed
    next
      case out1: False
      with c1 have m1: "Mk ! a ! b = 1" "(a, b) \<notin> set (path_stars qs)" by simp_all
      show ?thesis
      proof (cases "(a, b') \<in> set qs")
        case True
        with ROW [OF True, of b] m1 b show ?thesis by simp
      next
        case False
        with c2 have "Mk ! a ! b' = 1" by simp
        with m1 rows b show ?thesis by blast
      qed
    qed
  next
    fix a a' b assume b: "a < n" "a' < n" "b < n" and s: "Mk' ! a ! b = 1" "Mk' ! a' ! b = 1"
    from s b new have c1: "(a, b) \<in> set qs \<or> (Mk ! a ! b = 1 \<and> (a, b) \<notin> set (path_stars qs))"
      and c2: "(a', b) \<in> set qs \<or> (Mk ! a' ! b = 1 \<and> (a', b) \<notin> set (path_stars qs))"
      by blast+
    show "a = a'"
    proof (cases "(a, b) \<in> set qs")
      case in1: True
      show ?thesis
      proof (cases "(a', b) \<in> set qs")
        case True
        with in1 COLD [of "(a, b)" "(a', b)"] show ?thesis by simp
      next
        case False
        with c2 have "Mk ! a' ! b = 1" "(a', b) \<notin> set (path_stars qs)" by simp_all
        with COL [OF in1, of a'] b show ?thesis by simp
      qed
    next
      case out1: False
      with c1 have m1: "Mk ! a ! b = 1" "(a, b) \<notin> set (path_stars qs)" by simp_all
      show ?thesis
      proof (cases "(a', b) \<in> set qs")
        case True
        with COL [OF True, of a] m1 b show ?thesis by simp
      next
        case False
        with c2 have "Mk ! a' ! b = 1" by simp
        with m1 cols b show ?thesis by blast
      qed
    qed
  qed
qed

lemma step5_result:
  assumes run: "step5 p r0 c0 Mk rc cc = Inr (p', Mk', rc', cc', st)"
    and inv: "step4_inv n Mk rc cc"
    and z0: "r < n" "c < n" "r0 = int r" "c0 = int c" "Mk ! r ! c = 2"
      "\<forall>c'<n. Mk ! r ! c' \<noteq> 1"
  shows "st = 3 \<and> length p' = length p \<and> square n Mk' \<and> no_primes n Mk' \<and> independent n Mk'
         \<and> rc' = replicate n 0 \<and> cc' = replicate n 0
         \<and> (\<forall>a<n. \<forall>b<n. Mk' ! a ! b = 1 \<longrightarrow> Mk ! a ! b = 1 \<or> Mk ! a ! b = 2)"
proof -
  note sq = step4_invD(1) [OF inv] and l = step4_invD(2,3) [OF inv]
    and mk = step4_invD(4) [OF inv] and ind = step4_invD(5) [OF inv]
    and i2 = step4_invD(6) [OF inv] and i3 = step4_invD(7) [OF inv]
  have J: "\<forall>r<n. \<forall>c<n. \<forall>r'<n. Mk ! r ! c = 2 \<and> Mk ! r' ! c = 1 \<longrightarrow> (\<exists>c'<n. Mk ! r' ! c' = 2)"
  proof (intro allI impI)
    fix a b a' assume h: "a < n" "b < n" "a' < n" "Mk ! a ! b = 2 \<and> Mk ! a' ! b = 1"
    then have "cc ! b = 0" using i3 by blast
    with i2 [of a' b] h show "\<exists>c'<n. Mk ! a' ! c' = 2" by blast
  qed
  obtain p0 where p0: "path_set p 0 (r0, c0) = Inr p0"
    using run by (cases "path_set p 0 (r0, c0)") (simp_all add: step5_def)
  then have p0_eq: "p0 = p[0 := (int r, int c)]" and pos: "0 < length p"
    using z0(3,4) by (auto simp: path_set_def split: if_splits)
  obtain p1 pc1 where loop: "step5_loop Mk p0 1 (- 1) = Inr (p1, pc1)"
    using run p0 by (cases "step5_loop Mk p0 1 (- 1)") (auto simp: step5_def)
  obtain M1 where aug: "augment_path p1 pc1 Mk = Inr M1"
    using run p0 loop by (cases "augment_path p1 pc1 Mk") (auto simp: step5_def)
  have res: "p' = p1" "Mk' = erase_primes M1" "rc' = clear_covers rc" "cc' = clear_covers cc"
    "st = 3"
    using run p0 loop aug by (simp_all add: step5_def)
  have at0: "p0 ! (1 - 1) = (int r, int c)" using p0_eq pos by simp
  from step5_loop_path [OF loop sq J _ _ at0 z0(1,2,5)] p0_eq pos
  obtain qs zs where path: "alt_path Mk r c qs zs" and lp: "length p1 = length p"
    and pc1: "pc1 = length zs" "pc1 \<le> length p" and tk: "take pc1 p1 = map (map_prod int int) zs"
    by auto
  note shape = alt_path_shape [OF path]
  note pr = alt_path_primes [OF path sq z0(1,2,5)]
  note strs = alt_path_stars [OF path sq z0(1,2,5)]
  have inb: "\<forall>z\<in>set zs. fst z < n \<and> snd z < n"
    using shape pr strs by auto
  from fold_augment_cells [OF alt_path_distinct [OF path sq z0(1,2,5)] inb sq]
  obtain M1' where M1': "fold augment_cell (map (map_prod int int) zs) (Inr Mk) = Inr M1'"
    "square n M1'"
    "\<And>a b. a < n \<Longrightarrow> b < n \<Longrightarrow> M1' ! a ! b
        = (if (a, b) \<in> set zs then (if Mk ! a ! b = 1 then 0 else 1) else Mk ! a ! b)"
    by blast
  have "augment_path p1 pc1 Mk = Inr M1'"
    using augment_path_take [of pc1 p1 Mk] pc1 lp tk M1'(1) by simp
  with aug have M1_eq: "M1 = M1'" by simp
  have nth': "\<And>a b. a < n \<Longrightarrow> b < n \<Longrightarrow> Mk' ! a ! b
      = (if (a, b) \<in> set zs then (if Mk ! a ! b = 1 then 0 else 1)
         else if Mk ! a ! b = 2 then 0 else Mk ! a ! b)"
    using erase_primes_nth [OF M1'(2)] M1'(3) res(2) M1_eq by simp
  have new: "Mk' ! a ! b = 1 \<longleftrightarrow> (a, b) \<in> set qs \<or> (Mk ! a ! b = 1 \<and> (a, b) \<notin> set (path_stars qs))"
    if ab: "a < n" "b < n" for a b
  proof (cases "(a, b) \<in> set qs")
    case True
    with pr have "Mk ! a ! b = 2" by force
    with True shape show ?thesis by (simp add: nth' [OF ab])
  next
    case nq: False
    show ?thesis
    proof (cases "(a, b) \<in> set (path_stars qs)")
      case True
      with strs have "Mk ! a ! b = 1" by force
      with True nq shape show ?thesis by (simp add: nth' [OF ab])
    next
      case False
      with nq shape have "(a, b) \<notin> set zs" by simp
      with nq False show ?thesis by (simp add: nth' [OF ab])
    qed
  qed
  have hdrow: "\<forall>b<n. Mk ! fst (hd qs) ! b \<noteq> 1" using shape z0(6) by simp
  have "independent n Mk'"
    using augmented_independent [OF ind pr strs alt_path_distinct_cols [OF path]
        alt_path_last [OF path sq z0(1,2,5)] _ hdrow new] shape by simp
  moreover have "square n Mk'" using M1'(2) M1_eq res(2) by (simp add: square_erase_primes)
  moreover have "no_primes n Mk'"
    unfolding no_primes_def
  proof (intro allI impI)
    fix a b assume ab: "a < n" "b < n"
    with mk have "Mk ! a ! b = 0 \<or> Mk ! a ! b = 1 \<or> Mk ! a ! b = 2"
      unfolding marks_def by blast
    then show "Mk' ! a ! b = 0 \<or> Mk' ! a ! b = 1" by (auto simp: nth' [OF ab])
  qed
  moreover have "\<forall>a<n. \<forall>b<n. Mk' ! a ! b = 1 \<longrightarrow> Mk ! a ! b = 1 \<or> Mk ! a ! b = 2"
  proof (intro allI impI)
    fix a b assume ab: "a < n" "b < n" and "Mk' ! a ! b = 1"
    with new [OF ab] pr show "Mk ! a ! b = 1 \<or> Mk ! a ! b = 2" by force
  qed
  ultimately show ?thesis
    using res lp l by (simp add: clear_covers_def map_replicate_const)
qed

subsection \<open>The loop of the solver\<close>

text \<open>A proof rule for the loop of \<open>hungarian\<close>: what every step keeps true holds of the
  state in which the loop ends.\<close>

lemma run_rule:
  assumes run: "run rows cols s = Some res" and init: "I s"
    and s1: "\<And>s m st. I s \<Longrightarrow> step s = 1 \<Longrightarrow> step1 (matrix s) = (m, st)
               \<Longrightarrow> I (s\<lparr>matrix := m, step := st\<rparr>)"
    and s2: "\<And>s m rc cc st. I s \<Longrightarrow> step s = 2
               \<Longrightarrow> step2 (matrix s) (M s) (RowCover s) (ColCover s) = (m, rc, cc, st)
               \<Longrightarrow> I (s\<lparr>M := m, RowCover := rc, ColCover := cc, step := st\<rparr>)"
    and s3: "\<And>s cc st. I s \<Longrightarrow> step s = 3 \<Longrightarrow> step3 (M s) (ColCover s) = (cc, st)
               \<Longrightarrow> I (s\<lparr>ColCover := cc, step := st\<rparr>)"
    and s4: "\<And>s m rc cc r0 c0 st. I s \<Longrightarrow> step s = 4
               \<Longrightarrow> step4 (matrix s) (M s) (RowCover s) (ColCover s) (path_row_0 s) (path_col_0 s)
                     = Some (m, rc, cc, r0, c0, st)
               \<Longrightarrow> I (s\<lparr>M := m, RowCover := rc, ColCover := cc,
                         path_row_0 := r0, path_col_0 := c0, step := st\<rparr>)"
    and s5: "\<And>s p m rc cc st. I s \<Longrightarrow> step s = 5
               \<Longrightarrow> step5 (path s) (path_row_0 s) (path_col_0 s) (M s) (RowCover s) (ColCover s)
                     = Inr (p, m, rc, cc, st)
               \<Longrightarrow> I (s\<lparr>path := p, M := m, RowCover := rc, ColCover := cc, step := st\<rparr>)"
    and s6: "\<And>s m st. I s \<Longrightarrow> step s = 6 \<Longrightarrow> step6 (matrix s) (RowCover s) (ColCover s) = (m, st)
               \<Longrightarrow> I (s\<lparr>matrix := m, step := st\<rparr>)"
  shows "\<forall>sf. res = Inr sf \<longrightarrow>
           (\<exists>s'. I s' \<and> step s' \<notin> {1, 2, 3, 4, 5, 6}
                 \<and> sf = (if step s' = 7 then s'\<lparr>M := take rows (map (resize cols 0) (M s'))\<rparr>
                         else s'))"
proof -
  let ?P = "\<lambda>rows' cols' s res. I s \<longrightarrow> rows' = rows \<and> cols' = cols \<longrightarrow>
      (\<forall>sf. res = Inr sf \<longrightarrow>
           (\<exists>s'. I s' \<and> step s' \<notin> {1, 2, 3, 4, 5, 6}
                 \<and> sf = (if step s' = 7 then s'\<lparr>M := take rows (map (resize cols 0) (M s'))\<rparr>
                         else s')))"
  have "?P rows cols s res"
  proof (rule run.raw_induct [where P = ?P, OF _ run])
    fix run' rows' cols' s res
    assume IH: "\<And>rows' cols' s res. run' rows' cols' s = Some res \<Longrightarrow> ?P rows' cols' s res"
      and body: "(if step s = 1 then
        (case step1 (matrix s) of (m, st) \<Rightarrow> run' rows' cols' (s\<lparr>matrix := m, step := st\<rparr>))
      else if step s = 2 then
        (case step2 (matrix s) (M s) (RowCover s) (ColCover s) of (m, rc, cc, st) \<Rightarrow>
           run' rows' cols' (s\<lparr>M := m, RowCover := rc, ColCover := cc, step := st\<rparr>))
      else if step s = 3 then
        (case step3 (M s) (ColCover s) of (cc, st) \<Rightarrow>
           run' rows' cols' (s\<lparr>ColCover := cc, step := st\<rparr>))
      else if step s = 4 then
        (case step4 (matrix s) (M s) (RowCover s) (ColCover s) (path_row_0 s) (path_col_0 s) of
           None \<Rightarrow> None
         | Some (m, rc, cc, r0, c0, st) \<Rightarrow>
             run' rows' cols' (s\<lparr>M := m, RowCover := rc, ColCover := cc,
                               path_row_0 := r0, path_col_0 := c0, step := st\<rparr>))
      else if step s = 5 then
        (case step5 (path s) (path_row_0 s) (path_col_0 s) (M s) (RowCover s) (ColCover s) of
           Inl e \<Rightarrow> Some (Inl e)
         | Inr (p, m, rc, cc, st) \<Rightarrow>
             run' rows' cols' (s\<lparr>path := p, M := m, RowCover := rc, ColCover := cc, step := st\<rparr>))
      else if step s = 6 then
        (case step6 (matrix s) (RowCover s) (ColCover s) of (m, st) \<Rightarrow>
           run' rows' cols' (s\<lparr>matrix := m, step := st\<rparr>))
      else if step s = 7 then
        Some (Inr (s\<lparr>M := take rows' (map (resize cols' 0) (M s))\<rparr>))
      else Some (Inr s)) = Some res"
    show "?P rows' cols' s res"
    proof (intro impI)
      assume I: "I s" and eq: "rows' = rows \<and> cols' = cols"
      consider "step s = 1" | "step s = 2" | "step s = 3" | "step s = 4" | "step s = 5"
        | "step s = 6" | "step s \<notin> {1, 2, 3, 4, 5, 6}" by auto
      then show "\<forall>sf. res = Inr sf \<longrightarrow>
           (\<exists>s'. I s' \<and> step s' \<notin> {1, 2, 3, 4, 5, 6}
                 \<and> sf = (if step s' = 7 then s'\<lparr>M := take rows (map (resize cols 0) (M s'))\<rparr>
                         else s'))"
      proof cases
        case 1
        obtain m st where r: "step1 (matrix s) = (m, st)" by (cases "step1 (matrix s)")
        with body 1 have "run' rows' cols' (s\<lparr>matrix := m, step := st\<rparr>) = Some res" by simp
        from IH [OF this] s1 [OF I 1 r] eq show ?thesis by simp
      next
        case 2
        obtain m rc cc st where r: "step2 (matrix s) (M s) (RowCover s) (ColCover s) = (m, rc, cc, st)"
          by (cases "step2 (matrix s) (M s) (RowCover s) (ColCover s)")
        with body 2 have "run' rows' cols' (s\<lparr>M := m, RowCover := rc, ColCover := cc, step := st\<rparr>)
            = Some res" by simp
        from IH [OF this] s2 [OF I 2 r] eq show ?thesis by simp
      next
        case 3
        obtain cc st where r: "step3 (M s) (ColCover s) = (cc, st)"
          by (cases "step3 (M s) (ColCover s)")
        with body 3 have "run' rows' cols' (s\<lparr>ColCover := cc, step := st\<rparr>) = Some res" by simp
        from IH [OF this] s3 [OF I 3 r] eq show ?thesis by simp
      next
        case 4
        with body obtain m rc cc r0 c0 st where
          r: "step4 (matrix s) (M s) (RowCover s) (ColCover s) (path_row_0 s) (path_col_0 s)
                = Some (m, rc, cc, r0, c0, st)"
          by (cases "step4 (matrix s) (M s) (RowCover s) (ColCover s) (path_row_0 s) (path_col_0 s)")
             auto
        with body 4 have "run' rows' cols' (s\<lparr>M := m, RowCover := rc, ColCover := cc,
                               path_row_0 := r0, path_col_0 := c0, step := st\<rparr>) = Some res"
          by simp
        from IH [OF this] s4 [OF I 4 r] eq show ?thesis by simp
      next
        case 5
        show ?thesis
        proof (cases "step5 (path s) (path_row_0 s) (path_col_0 s) (M s) (RowCover s) (ColCover s)")
          case (Inl e)
          with body 5 show ?thesis by auto
        next
          case (Inr t)
          obtain p m rc cc st where t: "t = (p, m, rc, cc, st)" by (cases t)
          with Inr body 5
          have "run' rows' cols' (s\<lparr>path := p, M := m, RowCover := rc, ColCover := cc, step := st\<rparr>)
              = Some res" by simp
          from IH [OF this] s5 [OF I 5 Inr [unfolded t]] eq show ?thesis by simp
        qed
      next
        case 6
        obtain m st where r: "step6 (matrix s) (RowCover s) (ColCover s) = (m, st)"
          by (cases "step6 (matrix s) (RowCover s) (ColCover s)")
        with body 6 have "run' rows' cols' (s\<lparr>matrix := m, step := st\<rparr>) = Some res" by simp
        from IH [OF this] s6 [OF I 6 r] eq show ?thesis by simp
      next
        case 7
        with body eq have "res = Inr (if step s = 7
            then s\<lparr>M := take rows (map (resize cols 0) (M s))\<rparr> else s)"
          by (auto split: if_splits)
        with I 7 show ?thesis by blast
      qed
    qed
  qed
  with init show ?thesis by simp
qed

lemma length_step1: "step1 m = (m', st) \<Longrightarrow> length m' = length m \<and> st = 2"
  by (auto simp: step1_def)

lemma length_step6: "step6 m rc cc = (m', st) \<Longrightarrow> length m' = length m \<and> st = 4"
proof -
  have "length (fold (\<lambda>r. fold (\<lambda>c m. m[r := (m ! r)[c := f r c (m ! r ! c)]]) cs) rs m)
          = length m" for f :: "nat \<Rightarrow> nat \<Rightarrow> int \<Rightarrow> int" and cs rs
  proof (rule fold_inv [where Q = "\<lambda>m'. length m' = length m"])
    fix r and m' :: "int list list" assume "length m' = length m"
    then show "length (fold (\<lambda>c m. m[r := (m ! r)[c := f r c (m ! r ! c)]]) cs m') = length m"
      by (intro fold_inv [where Q = "\<lambda>m'. length m' = length m"]) simp_all
  qed simp
  then show "step6 m rc cc = (m', st) \<Longrightarrow> length m' = length m \<and> st = 4"
    by (auto simp: step6_def Let_def)
qed

lemma no_primes_marks: "no_primes n Mk \<Longrightarrow> marks n Mk"
  by (auto simp: no_primes_def marks_def)

lemma solver_inv_step1:
  assumes "solver_inv n s" "step s = 1" "step1 (matrix s) = (m, st)"
  shows "solver_inv n (s\<lparr>matrix := m, step := st\<rparr>)"
  using assms length_step1 [OF assms(3)] by (simp add: solver_inv_def)

lemma solver_inv_step2:
  assumes "solver_inv n s" "step s = 2"
    and "step2 (matrix s) (M s) (RowCover s) (ColCover s) = (m, rc, cc, st)"
  shows "solver_inv n (s\<lparr>M := m, RowCover := rc, ColCover := cc, step := st\<rparr>)"
proof -
  from assms(1,2) have "length (matrix s) = n" "square n (M s)" "length (RowCover s) = n"
    "length (ColCover s) = n" "\<forall>r<n. \<forall>c<n. M s ! r ! c = 0" "0 < n"
    by (simp_all add: solver_inv_def)
  from step2_result [OF this(1-5) assms(3)] this(1,6) show ?thesis
    by (simp add: solver_inv_def)
qed

lemma solver_inv_step3:
  assumes "solver_inv n s" "step s = 3" "step3 (M s) (ColCover s) = (cc, st)"
  shows "solver_inv n (s\<lparr>ColCover := cc, step := st\<rparr>)"
proof -
  from assms(1,2) have a: "length (matrix s) = n" "square n (M s)" "length (RowCover s) = n"
    "0 < n" "no_primes n (M s)" "independent n (M s)" "ColCover s = replicate n 0"
    by (simp_all add: solver_inv_def)
  have len: "length (M s) = n" using a(2) by (simp add: square_def)
  have "length (ColCover s) = n" "\<forall>c<n. ColCover s ! c = 0" using a(7) by simp_all
  from step3_result [OF len this assms(3)]
  have r: "length cc = n" "\<And>c. c < n \<Longrightarrow> cc ! c = (if \<exists>r<n. M s ! r ! c = 1 then 1 else 0)"
    "st = 7 \<or> st = 4" "st = 7 \<longleftrightarrow> (\<forall>c<n. \<exists>r<n. M s ! r ! c = 1)" by blast+
  show ?thesis
  proof (cases "st = 7")
    case True
    with r a show ?thesis by (simp add: solver_inv_def)
  next
    case False
    with r(3) have st: "st = 4" by simp
    have "step4_inv n (M s) (RowCover s) cc"
      unfolding step4_inv_def
    proof (intro conjI allI impI)
      fix a' b assume h: "a' < n" "b < n" "M s ! a' ! b = 1 \<and> cc ! b = 0"
      then have "\<exists>r<n. M s ! r ! b = 1" by blast
      then have "cc ! b = 1" using r(2) [of b] h(2) by simp
      with h show "\<exists>c'<n. M s ! a' ! c' = 2" by simp
    next
      fix a' b assume h: "a' < n" "b < n" "M s ! a' ! b = 2"
      with a(5) show "cc ! b = 0" unfolding no_primes_def by fastforce
    qed (use a r in \<open>simp_all add: no_primes_marks\<close>)
    with st a r(1) show ?thesis by (simp add: solver_inv_def)
  qed
qed

lemma solver_inv_step4:
  assumes "solver_inv n s" "step s = 4"
    and "step4 (matrix s) (M s) (RowCover s) (ColCover s) (path_row_0 s) (path_col_0 s)
           = Some (m, rc, cc, r0, c0, st)"
  shows "solver_inv n (s\<lparr>M := m, RowCover := rc, ColCover := cc,
                         path_row_0 := r0, path_col_0 := c0, step := st\<rparr>)"
proof -
  from assms(1,2) have a: "length (matrix s) = n" "0 < n"
    "step4_inv n (M s) (RowCover s) (ColCover s)"
    by (simp_all add: solver_inv_def)
  from step4_result [OF assms(3) a]
  have r: "step4_inv n m rc cc"
    "st = 6 \<or> st = 5 \<and> (\<exists>r<n. \<exists>c<n. r0 = int r \<and> c0 = int c \<and> m ! r ! c = 2
                                \<and> (\<forall>c'<n. m ! r ! c' \<noteq> 1))" by simp_all
  note d = step4_invD(1-3) [OF r(1)]
  from r(2) show ?thesis
  proof
    assume "st = 6"
    with r(1) d a show ?thesis by (simp add: solver_inv_def)
  next
    assume "st = 5 \<and> (\<exists>r<n. \<exists>c<n. r0 = int r \<and> c0 = int c \<and> m ! r ! c = 2
                                \<and> (\<forall>c'<n. m ! r ! c' \<noteq> 1))"
    with r(1) d a show ?thesis by (simp add: solver_inv_def)
  qed
qed

lemma solver_inv_step5:
  assumes "solver_inv n s" "step s = 5"
    and "step5 (path s) (path_row_0 s) (path_col_0 s) (M s) (RowCover s) (ColCover s)
           = Inr (p, m, rc, cc, st)"
  shows "solver_inv n (s\<lparr>path := p, M := m, RowCover := rc, ColCover := cc, step := st\<rparr>)"
proof -
  from assms(1,2) have a: "length (matrix s) = n" "0 < n"
    "step4_inv n (M s) (RowCover s) (ColCover s)"
    and "\<exists>r<n. \<exists>c<n. path_row_0 s = int r \<and> path_col_0 s = int c \<and> M s ! r ! c = 2
                     \<and> (\<forall>c'<n. M s ! r ! c' \<noteq> 1)"
    by (simp_all add: solver_inv_def)
  then obtain r c where z: "r < n" "c < n" "path_row_0 s = int r" "path_col_0 s = int c"
    "M s ! r ! c = 2" "\<forall>c'<n. M s ! r ! c' \<noteq> 1" by blast
  from step5_result [OF assms(3) a(3) z] a(1,2) show ?thesis
    by (simp add: solver_inv_def)
qed

lemma solver_inv_step6:
  assumes "solver_inv n s" "step s = 6" "step6 (matrix s) (RowCover s) (ColCover s) = (m, st)"
  shows "solver_inv n (s\<lparr>matrix := m, step := st\<rparr>)"
  using assms length_step6 [OF assms(3)] by (simp add: solver_inv_def)

lemma solver_inv_run:
  assumes "run rows cols s = Some (Inr sf)" "solver_inv n s"
  shows "\<exists>s'. solver_inv n s' \<and> step s' = 7
              \<and> sf = s'\<lparr>M := take rows (map (resize cols 0) (M s'))\<rparr>"
proof -
  from run_rule [where I = "solver_inv n", OF assms(1,2)
      solver_inv_step1 solver_inv_step2 solver_inv_step3 solver_inv_step4 solver_inv_step5
      solver_inv_step6]
  obtain s' where s': "solver_inv n s'" "step s' \<notin> {1, 2, 3, 4, 5, 6}"
    "sf = (if step s' = 7 then s'\<lparr>M := take rows (map (resize cols 0) (M s'))\<rparr> else s')"
    by blast
  from s'(1,2) have "step s' = 7" by (auto simp: solver_inv_def split: if_splits)
  with s' show ?thesis by auto
qed

lemma handle_negatives_shape:
  "handle_negatives mat a = Inr m \<Longrightarrow> length m = length mat \<and> (\<forall>i<length mat. length (m ! i) = length (mat ! i))"
  by (auto simp: handle_negatives_def Let_def split: if_splits)

lemma length_pad_matrix: "length (pad_matrix m) = max (length m) (length (m ! 0))"
  by (auto simp: pad_matrix_def Let_def)

lemma well_formed_copy:
  assumes "well_formed original"
  shows "map (\<lambda>row. row @ replicate (length (original ! 0) - length row) 0) original = original"
proof (rule map_idI)
  fix row assume "row \<in> set original"
  with assms have "length row = length (original ! 0)"
    unfolding well_formed_def list_all_iff by blast
  then show "row @ replicate (length (original ! 0) - length row) 0 = row" by simp
qed

lemma hungarian_state_final:
  assumes wf: "well_formed original" and run: "hungarian_state original allow = Some (Inr sf)"
  shows "\<exists>s'. solver_inv (max (length original) (length (original ! 0))) s' \<and> step s' = 7
              \<and> sf = s'\<lparr>M := take (length original)
                                  (map (resize (length (original ! 0)) 0) (M s'))\<rparr>"
proof -
  define cols where "cols = length (original ! 0)"
  define n where "n = max (length original) cols"
  from wf have ne: "original \<noteq> []"
    and len: "\<not> list_ex (\<lambda>row. length row > cols) original"
    unfolding well_formed_def list_ex_iff list_all_iff cols_def by fastforce+
  have copy: "map (\<lambda>row. row @ replicate (cols - length row) 0) original = original"
    using well_formed_copy [OF wf] by (simp add: cols_def)
  have st: "hungarian_state original allow =
      (case handle_negatives original allow of
         Inl e \<Rightarrow> Some (Inl e)
       | Inr m \<Rightarrow> run (length original) cols
            \<lparr>matrix = pad_matrix m,
               M = replicate (length (pad_matrix m)) (replicate (length (pad_matrix m)) 0),
               RowCover = replicate (length (pad_matrix m)) 0,
               ColCover = replicate (length (pad_matrix m)) 0,
               path_row_0 = 0, path_col_0 = 0,
               path = replicate (length (pad_matrix m) + 1) (0, 0), step = 1\<rparr>)"
    unfolding hungarian_state_def Let_def cols_def [symmetric] copy using ne len by simp
  obtain m where m: "handle_negatives original allow = Inr m"
    using run st by (cases "handle_negatives original allow") simp_all
  from handle_negatives_shape [OF m] ne have sh: "length m = length original"
    "length (m ! 0) = cols" by (auto simp: cols_def)
  have n: "length (pad_matrix m) = n" using sh by (simp add: length_pad_matrix n_def)
  let ?s0 = "\<lparr>matrix = pad_matrix m, M = replicate n (replicate n 0),
              RowCover = replicate n 0, ColCover = replicate n 0,
              path_row_0 = 0, path_col_0 = 0,
              path = replicate (n + 1) (0, 0), step = 1\<rparr>"
  have r: "run (length original) cols ?s0 = Some (Inr sf)"
    using run st m n by simp
  have "0 < n" using ne by (cases original) (simp_all add: n_def)
  then have "solver_inv n ?s0" using n by (simp add: solver_inv_def square_def)
  from solver_inv_run [OF r this] show ?thesis by (simp add: n_def cols_def)
qed

section \<open>The final mask\<close>

lemma resize_same: "length xs = n \<Longrightarrow> resize n v xs = xs"
  by (simp add: resize_def)

lemma square_resize: "square n Mk \<Longrightarrow> take n (map (resize n 0) Mk) = Mk"
proof -
  assume sq: "square n Mk"
  have "map (resize n 0) Mk = Mk"
  proof (rule map_idI)
    fix row assume "row \<in> set Mk"
    then obtain i where "i < length Mk" "row = Mk ! i" by (auto simp: in_set_conv_nth)
    with sq have "length row = n" by (simp add: square_def)
    then show "resize n 0 row = row" by (rule resize_same)
  qed
  with sq show ?thesis by (simp add: square_def)
qed

lemma starred_iff: "(r, c) \<in> starred R C Mk \<longleftrightarrow> r < R \<and> c < C \<and> Mk ! r ! c = 1"
  by (simp add: starred_def)

text \<open>Independent starred cells that reach every column form a permutation matrix.\<close>

lemma independent_full:
  assumes ind: "independent n Mk" and full: "\<forall>c<n. \<exists>r<n. Mk ! r ! c = 1"
  shows "permutation_matrix n Mk" and "card (starred n n Mk) = n"
proof -
  have rows: "\<And>a b b'. a < n \<Longrightarrow> b < n \<Longrightarrow> b' < n \<Longrightarrow> Mk ! a ! b = 1 \<Longrightarrow> Mk ! a ! b' = 1
      \<Longrightarrow> b = b'"
    and cols: "\<And>a a' b. a < n \<Longrightarrow> a' < n \<Longrightarrow> b < n \<Longrightarrow> Mk ! a ! b = 1 \<Longrightarrow> Mk ! a' ! b = 1
      \<Longrightarrow> a = a'"
    using ind unfolding independent_def by blast+
  from full obtain g where g: "\<And>c. c < n \<Longrightarrow> g c < n \<and> Mk ! g c ! c = 1" by metis
  have inj: "inj_on g {..<n}"
  proof (rule inj_onI)
    fix c c' assume "c \<in> {..<n}" "c' \<in> {..<n}" "g c = g c'"
    then show "c = c'" using g [of c] g [of c'] rows [of "g c" c c'] by simp
  qed
  have "g ` {..<n} \<subseteq> {..<n}" using g by auto
  moreover have "card (g ` {..<n}) = card {..<n}" using inj by (rule card_image)
  ultimately have surj: "g ` {..<n} = {..<n}" by (simp add: card_subset_eq)
  have row_star: "\<exists>c<n. Mk ! r ! c = 1" if "r < n" for r
  proof -
    from that surj obtain c where "c < n" "g c = r" by (metis imageE lessThan_iff)
    with g [of c] show ?thesis by blast
  qed
  show "permutation_matrix n Mk"
    unfolding permutation_matrix_def
  proof (intro conjI allI impI)
    fix r assume r: "r < n"
    from row_star [OF r] obtain c where "c < n" "Mk ! r ! c = 1" by blast
    then show "\<exists>!c. c < n \<and> Mk ! r ! c = 1" using rows [OF r] by blast
  next
    fix c assume c: "c < n"
    from g [OF c] show "\<exists>!r. r < n \<and> Mk ! r ! c = 1" using cols [OF _ _ c] by blast
  qed
  have "starred n n Mk = (\<lambda>c. (g c, c)) ` {..<n}"
  proof (intro set_eqI iffI)
    fix z assume "z \<in> starred n n Mk"
    then obtain r c where z: "z = (r, c)" "r < n" "c < n" "Mk ! r ! c = 1"
      by (cases z) (simp add: starred_iff)
    with g [of c] cols [of r "g c" c] have "r = g c" by simp
    with z show "z \<in> (\<lambda>c. (g c, c)) ` {..<n}" by simp
  next
    fix z assume "z \<in> (\<lambda>c. (g c, c)) ` {..<n}"
    then show "z \<in> starred n n Mk" using g by (auto simp: starred_iff)
  qed
  moreover have "inj_on (\<lambda>c. (g c, c)) {..<n}" by (rule inj_onI) simp
  ultimately show "card (starred n n Mk) = n" by (simp add: card_image)
qed

text \<open>
  Claim C2: for every square \<open>N \<times> N\<close> input, when the solver ends in step 7 the mask
  matrix contains exactly \<open>N\<close> starred cells and they form a permutation matrix: exactly
  one starred cell in every row and exactly one in every column. (No cell is left primed:
  every cell of the mask is unmarked or starred.)
\<close>

theorem starred_permutation_matrix:
  assumes "length original = N" and "\<forall>row\<in>set original. length row = N"
    and "hungarian_state original allow_negatives = Some (Inr s)"
  shows "step s = 7 \<and> square N (M s) \<and> no_primes N (M s) \<and> permutation_matrix N (M s)
         \<and> card (starred N N (M s)) = N"
proof -
  have ne: "original \<noteq> []"
    using assms(3) by (auto simp: hungarian_state_def)
  then have c0: "length (original ! 0) = N" using assms(2) by (cases original) simp_all
  have wf: "well_formed original"
    using ne assms(2) c0 by (simp add: well_formed_def list_all_iff)
  from hungarian_state_final [OF wf assms(3)] assms(1) c0
  obtain s' where s': "solver_inv N s'" "step s' = 7"
    "s = s'\<lparr>M := take N (map (resize N 0) (M s'))\<rparr>" by auto
  from s'(1,2) have inv: "square N (M s')" "no_primes N (M s')" "independent N (M s')"
    "\<forall>c<N. \<exists>r<N. M s' ! r ! c = 1"
    by (simp_all add: solver_inv_def)
  have "M s = M s'" using s'(3) square_resize [OF inv(1)] by simp
  with inv s'(2,3) independent_full [OF inv(3,4)] show ?thesis by simp
qed

text \<open>The theorem at the matrix \<open>[[25,40,35],[40,60,35],[20,40,25]]\<close>, whose run ends in
  step 7 with the starred cells (0,1), (1,2) and (2,0).\<close>

theorem starred_permutation_matrix_witness:
  "\<exists>s. hungarian_state [[25, 40, 35], [40, 60, 35], [20, 40, 25]] True = Some (Inr s)
       \<and> M s = [[0, 1, 0], [0, 0, 1], [1, 0, 0]] \<and> step s = 7
       \<and> permutation_matrix 3 (M s) \<and> card (starred 3 3 (M s)) = 3"
proof -
  let ?X = "[[25, 40, 35], [40, 60, 35], [20, 40, 25]] :: int list list"
  let ?s = "\<lparr>matrix = [[0, 0, 10], [5, 10, 0], [0, 5, 5]],
             M = [[0, 1, 0], [0, 0, 1], [1, 0, 0]], RowCover = [0, 0, 0],
             ColCover = [1, 1, 1], path_row_0 = 2, path_col_0 = 0,
             path = [(2, 0), (0, 0), (0, 1), (0, 0)], step = 7\<rparr>"
  have h: "hungarian_state ?X True = Some (Inr ?s)" by code_simp
  have m: "M ?s = [[0, 1, 0], [0, 0, 1], [1, 0, 0]]" by simp
  have l: "length ?X = 3" "\<forall>row\<in>set ?X. length row = 3" by simp_all
  note th = starred_permutation_matrix [OF l h]
  show ?thesis
    by (intro conjI exI [of _ ?s]) (rule h m th [THEN conjunct1]
        th [THEN conjunct2, THEN conjunct2, THEN conjunct2, THEN conjunct1]
        th [THEN conjunct2, THEN conjunct2, THEN conjunct2, THEN conjunct2])+
qed

subsection \<open>The cost that is returned\<close>

lemma wrapT_add_left: "wrapT (wrapT a + b) = wrapT (a + b)"
proof -
  have "(wrapT a + b + 2147483648) mod 4294967296 = (a + b + 2147483648) mod 4294967296"
    unfolding wrapT_def by (simp add: mod_simps algebra_simps)
  then show ?thesis by (simp add: wrapT_def)
qed

lemma wrapT_0: "wrapT 0 = 0"
  by (simp add: wrapT_def)

lemma wrapT_id: "in_range x \<Longrightarrow> wrapT x = x"
  by (simp add: wrapT_def in_range_def T_max_def)

lemma in_range_wrapT: "in_range (wrapT x)"
  by (simp add: wrapT_def in_range_def T_max_def) 

lemma output_column:
  assumes "\<forall>i<R. j < length (orig ! i)"
  shows "fold (output_cell orig Mf j) [0..<R] (Inr (wrapT a))
           = Inr (wrapT (a + (\<Sum>i<R. if Mf ! i ! j \<noteq> 0 then orig ! i ! j else 0)))"
  using assms
proof (induction R)
  case 0
  then show ?case by simp
next
  case (Suc R)
  then show ?case by (simp add: output_cell_def wrapT_add_left add.assoc)
qed

lemma output_columns:
  assumes "\<forall>j<C. \<forall>i<R. j < length (orig ! i)"
  shows "fold (\<lambda>j. fold (output_cell orig Mf j) [0..<R]) [0..<C] (Inr (wrapT a))
           = Inr (wrapT (a + (\<Sum>j<C. \<Sum>i<R. if Mf ! i ! j \<noteq> 0 then orig ! i ! j else 0)))"
  using assms
proof (induction C)
  case 0
  then show ?case by simp
next
  case (Suc C)
  then show ?case by (simp add: output_column add.assoc)
qed

lemma sum_starred:
  assumes "\<forall>i<R. \<forall>j<C. Mf ! i ! j = 0 \<or> Mf ! i ! j = 1"
  shows "(\<Sum>j<C. \<Sum>i<R. if Mf ! i ! j \<noteq> 0 then f i j else (0::int))
           = (\<Sum>(r, c)\<in>starred R C Mf. f r c)"
proof -
  have "(\<Sum>j<C. \<Sum>i<R. if Mf ! i ! j \<noteq> 0 then f i j else (0::int))
      = (\<Sum>i<R. \<Sum>j<C. if Mf ! i ! j = 1 then f i j else 0)"
  proof (subst sum.swap, intro sum.cong refl)
    fix i j assume "i \<in> {..<R}" "j \<in> {..<C}"
    with assms have "Mf ! i ! j = 0 \<or> Mf ! i ! j = 1" by simp
    then show "(if Mf ! i ! j \<noteq> 0 then f i j else 0) = (if Mf ! i ! j = 1 then f i j else 0)"
      by auto
  qed
  also have "\<dots> = (\<Sum>(i, j)\<in>{..<R} \<times> {..<C}. if Mf ! i ! j = 1 then f i j else 0)"
    by (simp add: sum.cartesian_product)
  also have "\<dots> = (\<Sum>(i, j)\<in>{z \<in> {..<R} \<times> {..<C}. Mf ! fst z ! snd z = 1}. f i j)"
    by (simp add: sum.inter_filter case_prod_unfold)
  also have "{z \<in> {..<R} \<times> {..<C}. Mf ! fst z ! snd z = 1} = starred R C Mf"
    by (auto simp: starred_iff)
  finally show ?thesis .
qed

lemma resize_nth: "j < n \<Longrightarrow> n \<le> length xs \<Longrightarrow> resize n v xs ! j = xs ! j"
  by (simp add: resize_def nth_append)

text \<open>
  Claim C3: for every input, the value that \<open>hungarian\<close> returns equals the sum of the
  entries of the original matrix at the cells that the final mask, restricted to the region
  of the original, marks as starred. On the 2 by 2 matrix whose entries are all
  2147483647, the largest value of \<open>T\<close>, the mask ends with the starred cells (0,0) and
  (1,1), whose entries sum to 4294967294, and \<open>hungarian\<close> returns -2: the sum is
  accumulated in \<open>T\<close>.
\<close>

theorem cost_sum_not_representable:
  "\<exists>s. hungarian_state [[2147483647, 2147483647], [2147483647, 2147483647]] True = Some (Inr s)
       \<and> M s = [[1, 0], [0, 1]]
       \<and> (\<Sum>(r, c)\<in>starred 2 2 (M s).
             ([[2147483647, 2147483647], [2147483647, 2147483647]] :: int list list) ! r ! c)
           = 4294967294
       \<and> hungarian [[2147483647, 2147483647], [2147483647, 2147483647]] True = Some (Inr (- 2))"
proof -
  let ?X = "[[2147483647, 2147483647], [2147483647, 2147483647]] :: int list list"
  let ?s = "\<lparr>matrix = [[0, 0], [0, 0]], M = [[1, 0], [0, 1]], RowCover = [0, 0],
             ColCover = [1, 1], path_row_0 = 0, path_col_0 = 0,
             path = [(0, 0), (0, 0), (0, 0)], step = 7\<rparr>"
  have h: "hungarian_state ?X True = Some (Inr ?s)" by code_simp
  have m: "M ?s = [[1, 0], [0, 1]]" by simp
  have sum: "(\<Sum>(r, c)\<in>starred 2 2 (M ?s). ?X ! r ! c) = 4294967294"
    by code_simp
  have res: "hungarian ?X True = Some (Inr (- 2))" by code_simp
  show ?thesis by (intro conjI exI [of _ ?s]) (rule h m sum res)+
qed

text \<open>
  Claim C3, amended: for every well-formed input on which the solver ends in step 7, the
  value that \<open>hungarian\<close> returns is the sum of the entries of the original matrix at the
  starred cells of the final mask, restricted to the region of the original, reduced into
  the range of \<open>T\<close>; it is that sum itself whenever the sum is a value of \<open>T\<close>. The
  shift by the minimum and the padding do not enter the value.
\<close>

theorem cost_is_sum_at_starred:
  assumes wf: "well_formed original"
    and run: "hungarian_state original allow_negatives = Some (Inr s)"
  shows "hungarian original allow_negatives
           = Some (Inr (wrapT (\<Sum>(r, c)\<in>starred (length original) (length (original ! 0)) (M s).
                                 original ! r ! c)))
         \<and> (in_range (\<Sum>(r, c)\<in>starred (length original) (length (original ! 0)) (M s).
                         original ! r ! c)
              \<longrightarrow> hungarian original allow_negatives
                    = Some (Inr (\<Sum>(r, c)\<in>starred (length original) (length (original ! 0)) (M s).
                                 original ! r ! c)))"
proof -
  define R where "R = length original"
  define C where "C = length (original ! 0)"
  define n where "n = max R C"
  from hungarian_state_final [OF wf run]
  obtain s' where s': "solver_inv n s'" "step s' = 7"
    "s = s'\<lparr>M := take R (map (resize C 0) (M s'))\<rparr>"
    by (auto simp: R_def C_def n_def)
  from s'(1,2) have sq: "square n (M s')" and np: "no_primes n (M s')"
    by (simp_all add: solver_inv_def)
  have cell: "M s ! i ! j = M s' ! i ! j" if "i < R" "j < C" for i j
  proof -
    have "i < n" "C \<le> n" using that by (simp_all add: n_def)
    with sq have "i < length (M s')" "C \<le> length (M s' ! i)" by (simp_all add: square_def)
    with that s'(3) show ?thesis by (simp add: resize_nth)
  qed
  have marks: "\<forall>i<R. \<forall>j<C. M s ! i ! j = 0 \<or> M s ! i ! j = 1"
  proof (intro allI impI)
    fix i j assume ij: "i < R" "j < C"
    then have "i < n" "j < n" by (simp_all add: n_def)
    with np have "M s' ! i ! j = 0 \<or> M s' ! i ! j = 1" unfolding no_primes_def by blast
    with cell [OF ij] show "M s ! i ! j = 0 \<or> M s ! i ! j = 1" by simp
  qed
  have rows: "\<forall>j<C. \<forall>i<R. j < length (original ! i)"
  proof (intro allI impI)
    fix j i assume "j < C" "i < R"
    moreover from this have "original ! i \<in> set original" by (simp add: R_def)
    ultimately show "j < length (original ! i)"
      using wf unfolding well_formed_def list_all_iff C_def by fastforce
  qed
  have "output_solution original (M s)
          = Inr (wrapT (0 + (\<Sum>j<C. \<Sum>i<R. if M s ! i ! j \<noteq> 0 then original ! i ! j else 0)))"
    using output_columns [OF rows, of "M s" 0]
    by (simp add: output_solution_def R_def C_def wrapT_0)
  also have "(\<Sum>j<C. \<Sum>i<R. if M s ! i ! j \<noteq> 0 then original ! i ! j else 0)
          = (\<Sum>(r, c)\<in>starred R C (M s). original ! r ! c)"
    using sum_starred [OF marks, of "\<lambda>i j. original ! i ! j"] .
  finally have "hungarian original allow_negatives
           = Some (Inr (wrapT (\<Sum>(r, c)\<in>starred R C (M s). original ! r ! c)))"
    using run by (simp add: hungarian_def)
  then show ?thesis using wrapT_id by (simp add: R_def C_def)
qed

text \<open>The theorem at the matrix \<open>[[25,40,35],[40,60,35],[20,40,25]]\<close>: the starred cells
  (0,1), (1,2) and (2,0) hold 40, 35 and 20.\<close>

theorem cost_is_sum_at_starred_witness:
  "well_formed [[25, 40, 35], [40, 60, 35], [20, 40, 25]]
   \<and> (\<exists>s. hungarian_state [[25, 40, 35], [40, 60, 35], [20, 40, 25]] True = Some (Inr s)
          \<and> M s = [[0, 1, 0], [0, 0, 1], [1, 0, 0]]
          \<and> (\<Sum>(r, c)\<in>starred 3 3 (M s).
                ([[25, 40, 35], [40, 60, 35], [20, 40, 25]] :: int list list) ! r ! c) = 95
          \<and> hungarian [[25, 40, 35], [40, 60, 35], [20, 40, 25]] True = Some (Inr 95))"
proof -
  let ?X = "[[25, 40, 35], [40, 60, 35], [20, 40, 25]] :: int list list"
  let ?s = "\<lparr>matrix = [[0, 0, 10], [5, 10, 0], [0, 5, 5]],
             M = [[0, 1, 0], [0, 0, 1], [1, 0, 0]], RowCover = [0, 0, 0],
             ColCover = [1, 1, 1], path_row_0 = 2, path_col_0 = 0,
             path = [(2, 0), (0, 0), (0, 1), (0, 0)], step = 7\<rparr>"
  have wf: "well_formed ?X" by (simp add: well_formed_def)
  have h: "hungarian_state ?X True = Some (Inr ?s)" by code_simp
  have m: "M ?s = [[0, 1, 0], [0, 0, 1], [1, 0, 0]]" by simp
  have sum: "(\<Sum>(r, c)\<in>starred (length ?X) (length (?X ! 0)) (M ?s). ?X ! r ! c) = 95"
    by code_simp
  have sum3: "(\<Sum>(r, c)\<in>starred 3 3 (M ?s). ?X ! r ! c) = 95"
    by code_simp
  have "hungarian ?X True = Some (Inr (wrapT 95))"
    using cost_is_sum_at_starred [OF wf h] unfolding sum by (rule conjunct1)
  then have res: "hungarian ?X True = Some (Inr 95)" by (simp add: wrapT_def)
  show ?thesis by (intro conjI exI [of _ ?s]) (rule wf h m sum3 res)+
qed

section \<open>The adjustment of step 6\<close>

text \<open>A nested loop that rewrites every cell of a square matrix once.\<close>

lemma fold_cells_row:
  assumes "square n m" "r < n" "k \<le> n"
  shows "square n (fold (\<lambda>c m. m[r := (m ! r)[c := g c (m ! r ! c)]]) [0..<k] m)
         \<and> (\<forall>r'<n. \<forall>c'<n. fold (\<lambda>c m. m[r := (m ! r)[c := g c (m ! r ! c)]]) [0..<k] m ! r' ! c'
               = (if r' = r \<and> c' < k then g c' (m ! r ! c') else m ! r' ! c'))"
proof (rule fold_upt_inv [where P = "\<lambda>j m'. square n m' \<and>
          (\<forall>r'<n. \<forall>c'<n. m' ! r' ! c' = (if r' = r \<and> c' < j then g c' (m ! r ! c') else m ! r' ! c'))"])
  show "square n m \<and> (\<forall>r'<n. \<forall>c'<n. m ! r' ! c'
          = (if r' = r \<and> c' < 0 then g c' (m ! r ! c') else m ! r' ! c'))"
    using assms(1) by simp
next
  fix j m'
  assume j: "j < k" and inv: "square n m' \<and>
          (\<forall>r'<n. \<forall>c'<n. m' ! r' ! c' = (if r' = r \<and> c' < j then g c' (m ! r ! c') else m ! r' ! c'))"
  then have sq: "square n m'" and jn: "j < n" using assms(3) by simp_all
  have cur: "m' ! r ! j = m ! r ! j" using inv assms(2) jn by simp
  show "square n (m'[r := (m' ! r)[j := g j (m' ! r ! j)]]) \<and>
       (\<forall>r'<n. \<forall>c'<n. m'[r := (m' ! r)[j := g j (m' ! r ! j)]] ! r' ! c'
           = (if r' = r \<and> c' < Suc j then g c' (m ! r ! c') else m ! r' ! c'))"
  proof (intro conjI allI impI)
    show "square n (m'[r := (m' ! r)[j := g j (m' ! r ! j)]])" using sq by (rule square_upd2)
  next
    fix r' c' assume b: "r' < n" "c' < n"
    from inv b have old: "m' ! r' ! c'
        = (if r' = r \<and> c' < j then g c' (m ! r ! c') else m ! r' ! c')" by blast
    show "m'[r := (m' ! r)[j := g j (m' ! r ! j)]] ! r' ! c'
           = (if r' = r \<and> c' < Suc j then g c' (m ! r ! c') else m ! r' ! c')"
      unfolding nth_upd2 [OF sq assms(2) jn b] cur old by (auto simp: less_Suc_eq)
  qed
qed

lemma fold_cells:
  assumes "square n m"
  shows "square n (fold (\<lambda>r. fold (\<lambda>c m. m[r := (m ! r)[c := g r c (m ! r ! c)]]) [0..<n])
                        [0..<n] m)
         \<and> (\<forall>r<n. \<forall>c<n.
               fold (\<lambda>r. fold (\<lambda>c m. m[r := (m ! r)[c := g r c (m ! r ! c)]]) [0..<n])
                    [0..<n] m ! r ! c = g r c (m ! r ! c))"
proof -
  let ?f = "\<lambda>r. fold (\<lambda>c m. m[r := (m ! r)[c := g r c (m ! r ! c)]]) [0..<n]"
  have "square n (fold ?f [0..<k] m) \<and>
        (\<forall>r<n. \<forall>c<n. fold ?f [0..<k] m ! r ! c = (if r < k then g r c (m ! r ! c) else m ! r ! c))"
    if "k \<le> n" for k
  proof (rule fold_upt_inv [where P = "\<lambda>i m'. square n m' \<and>
          (\<forall>r<n. \<forall>c<n. m' ! r ! c = (if r < i then g r c (m ! r ! c) else m ! r ! c))"])
    show "square n m \<and> (\<forall>r<n. \<forall>c<n. m ! r ! c = (if r < 0 then g r c (m ! r ! c) else m ! r ! c))"
      using assms by simp
  next
    fix i m'
    assume i: "i < k" and inv: "square n m' \<and>
          (\<forall>r<n. \<forall>c<n. m' ! r ! c = (if r < i then g r c (m ! r ! c) else m ! r ! c))"
    then have sq: "square n m'" and "i < n" using that by simp_all
    note row = fold_cells_row [OF sq \<open>i < n\<close> order_refl, of "g i"]
    show "square n (?f i m') \<and>
          (\<forall>r<n. \<forall>c<n. ?f i m' ! r ! c = (if r < Suc i then g r c (m ! r ! c) else m ! r ! c))"
    proof (intro conjI allI impI)
      show "square n (?f i m')" using row by blast
    next
      fix r c assume b: "r < n" "c < n"
      from row b have "?f i m' ! r ! c = (if r = i \<and> c < n then g i c (m' ! i ! c) else m' ! r ! c)"
        by blast
      moreover from inv b have "m' ! r ! c = (if r < i then g r c (m ! r ! c) else m ! r ! c)"
        by blast
      moreover from inv b \<open>i < n\<close> have "m' ! i ! c = m ! i ! c" by simp
      ultimately show "?f i m' ! r ! c = (if r < Suc i then g r c (m ! r ! c) else m ! r ! c)"
        using b by (auto simp: less_Suc_eq)
    qed
  qed
  from this [of n] show ?thesis by simp
qed

lemma wrapT_add_sub: "in_range x \<Longrightarrow> wrapT (wrapT (x + k) - k) = x"
proof -
  assume x: "in_range x"
  have "(wrapT (x + k) - k + 2147483648) mod 4294967296 = (x + 2147483648) mod 4294967296"
    unfolding wrapT_def by (simp add: mod_simps algebra_simps)
  then have "wrapT (wrapT (x + k) - k) = wrapT x" by (simp add: wrapT_def)
  with x show ?thesis by (simp add: wrapT_id)
qed

text \<open>
  Claim C6: in Step 6, every matrix entry whose row is covered and whose column is also
  covered is net unchanged. For the matrix \<open>[[0,5,0],[3,0,4],[2,0,6]]\<close> steps 1 to 3 star
  (0,0) and (1,1) and cover columns 0 and 1; step 4 primes (0,2), covers row 0, uncovers
  column 0 and goes to step 6. There row 0 and column 1 are covered, the minimum uncovered
  value is 2, and the entry 5 at (0,1) becomes 7.
\<close>

theorem step6_changes_doubly_covered:
  "step4 [[0, 5, 0], [3, 0, 4], [2, 0, 6]] [[1, 0, 0], [0, 1, 0], [0, 0, 0]]
         [0, 0, 0] [1, 1, 0] 0 0
     = Some ([[1, 0, 2], [0, 1, 0], [0, 0, 0]], [1, 0, 0], [0, 1, 0], 0, 0, 6)
   \<and> find_smallest T_max [[0, 5, 0], [3, 0, 4], [2, 0, 6]] [1, 0, 0] [0, 1, 0] = 2
   \<and> step6 [[0, 5, 0], [3, 0, 4], [2, 0, 6]] [1, 0, 0] [0, 1, 0]
     = ([[0, 7, 0], [1, 0, 2], [0, 0, 4]], 4)"
  by code_simp

text \<open>
  Claim C6, amended: in Step 6, with \<open>minval\<close> the minimum uncovered value, an entry
  whose row is covered and whose column is uncovered is net unchanged (\<open>minval\<close> is added
  and subtracted again), and so is an entry whose row is uncovered and whose column is
  covered (it is not touched); an entry whose row and column are both covered is increased
  by \<open>minval\<close>, and an entry whose row and column are both uncovered is decreased by
  \<open>minval\<close>, both in the arithmetic of \<open>T\<close>. A row is covered when its cover entry is
  1, a column is uncovered when its cover entry is 0, as the code tests them.
\<close>

theorem step6_cell_effect:
  assumes "square n mat" and "r < n" and "c < n" and "in_range (mat ! r ! c)"
    and "step6 mat rc cc = (mat', st)"
  shows "mat' ! r ! c =
           (if rc ! r = 1
            then (if cc ! c = 0 then mat ! r ! c
                  else wrapT (mat ! r ! c + find_smallest T_max mat rc cc))
            else (if cc ! c = 0 then wrapT (mat ! r ! c - find_smallest T_max mat rc cc)
                  else mat ! r ! c))"
proof -
  define mv where "mv = find_smallest T_max mat rc cc"
  have len: "length mat = n" using assms(1) by (simp add: square_def)
  have "mat' = fold (\<lambda>r. fold (\<lambda>c m. m[r := (m ! r)[c := step6_cell rc cc mv r c (m ! r ! c)]])
                        [0..<n]) [0..<n] mat"
    using assms(5) len by (simp add: step6_def Let_def mv_def)
  with fold_cells [OF assms(1), of "step6_cell rc cc mv"] assms(2,3)
  have "mat' ! r ! c = step6_cell rc cc mv r c (mat ! r ! c)" by simp
  then show ?thesis
    using wrapT_add_sub [OF assms(4), of mv]
    by (simp add: step6_cell_def mv_def [symmetric])
qed

text \<open>The theorem at the four kinds of cell of the matrix above: (0,1) and (0,0) in the
  covered row, (1,1) and (1,0) in an uncovered row.\<close>

theorem step6_cell_effect_witness:
  "square 3 [[0, 5, 0], [3, 0, 4], [2, 0, 6 :: int]]
   \<and> in_range 5
   \<and> step6 [[0, 5, 0], [3, 0, 4], [2, 0, 6]] [1, 0, 0] [0, 1, 0]
        = ([[0, 7, 0], [1, 0, 2], [0, 0, 4]], 4)
   \<and> [[0, 7, 0], [1, 0, 2], [0, 0, 4 :: int]] ! 0 ! 1
        = wrapT (5 + find_smallest T_max [[0, 5, 0], [3, 0, 4], [2, 0, 6]] [1, 0, 0] [0, 1, 0])"
proof -
  let ?X = "[[0, 5, 0], [3, 0, 4], [2, 0, 6]] :: int list list"
  have sq: "square 3 ?X" by (simp add: square_def less_Suc_eq numeral_3_eq_3)
  have rg: "in_range (?X ! 0 ! 1)" "in_range 5" by (simp_all add: in_range_def T_max_def)
  have st: "step6 ?X [1, 0, 0] [0, 1, 0] = ([[0, 7, 0], [1, 0, 2], [0, 0, 4]], 4)" by code_simp
  have b: "(0::nat) < 3" "(1::nat) < 3" by simp_all
  from step6_cell_effect [OF sq b rg(1) st] sq rg(2) st show ?thesis by simp
qed

section \<open>Arithmetic in the element type\<close>

lemma wrapT_add_right: "wrapT (a + wrapT b) = wrapT (a + b)"
  using wrapT_add_left [of b a] by (simp add: add.commute)

text \<open>The minimum that \<open>handle_negatives\<close> computes: the maximum of \<open>T\<close> or an entry,
  and at most every entry.\<close>

lemma fold_min_row:
  "(fold (\<lambda>num m'. min m' num) elem m = m \<or> fold (\<lambda>num m'. min m' num) elem m \<in> set elem)
   \<and> fold (\<lambda>num m'. min m' num) elem m \<le> m
   \<and> (\<forall>x\<in>set elem. fold (\<lambda>num m'. min m' num) elem m \<le> (x::int))"
proof (induction elem arbitrary: m)
  case Nil
  then show ?case by simp
next
  case (Cons x xs)
  from Cons [of "min m x"] show ?case by (auto simp: min_def split: if_splits)
qed

lemma fold_min_matrix:
  "(fold (\<lambda>elem m. fold (\<lambda>num m'. min m' num) elem m) mat m = m
      \<or> (\<exists>row\<in>set mat. fold (\<lambda>elem m. fold (\<lambda>num m'. min m' num) elem m) mat m \<in> set row))
   \<and> fold (\<lambda>elem m. fold (\<lambda>num m'. min m' num) elem m) mat m \<le> m
   \<and> (\<forall>row\<in>set mat. \<forall>x\<in>set row.
         fold (\<lambda>elem m. fold (\<lambda>num m'. min m' num) elem m) mat m \<le> (x::int))"
proof (induction mat arbitrary: m)
  case Nil
  then show ?case by simp
next
  case (Cons row rows)
  let ?m1 = "fold (\<lambda>num m'. min m' num) row m"
  let ?res = "fold (\<lambda>elem m. fold (\<lambda>num m'. min m' num) elem m) rows ?m1"
  note r = fold_min_row [of row m]
  note ih = Cons [of ?m1]
  have "?res = m \<or> (\<exists>row'\<in>set (row # rows). ?res \<in> set row')"
    using r ih by auto
  moreover have "?res \<le> m" using r ih by linarith
  moreover have "\<forall>row'\<in>set (row # rows). \<forall>x\<in>set row'. ?res \<le> x"
  proof (intro ballI)
    fix row' x assume "row' \<in> set (row # rows)" "x \<in> set row'"
    then consider "x \<in> set row" | "row' \<in> set rows" by auto
    then show "?res \<le> x"
    proof cases
      case 1
      with r have "?m1 \<le> x" by blast
      with ih show ?thesis by linarith
    next
      case 2
      with ih \<open>x \<in> set row'\<close> show ?thesis by blast
    qed
  qed
  ultimately show ?case by simp
qed

lemma min_element_Min:
  assumes "row \<noteq> []"
  shows "min_element row = Min (set row)"
proof -
  have "(\<lambda>n m. if n < m then n else m) = (min :: int \<Rightarrow> int \<Rightarrow> int)"
    by (intro ext) (simp add: min_def)
  then have "min_element row = fold min row (row ! 0)" by (simp add: min_element_def)
  also have "\<dots> = Min (set (row ! 0 # row))" by (rule Min.set_eq_fold [symmetric])
  also have "set (row ! 0 # row) = set row" using assms by (cases row) auto
  finally show ?thesis .
qed

lemma step1_exact:
  assumes "\<forall>row\<in>set mat. row \<noteq> [] \<and> (\<forall>x\<in>set row. 0 \<le> x \<and> x \<le> T_max)"
  shows "step1 mat = (map (\<lambda>row. map (\<lambda>x. x - Min (set row)) row) mat, 2)
         \<and> (\<forall>row\<in>set mat. \<forall>x\<in>set row. 0 \<le> x - Min (set row) \<and> x - Min (set row) \<le> T_max)"
proof -
  have row: "(let smallest = min_element row
              in if smallest > 0 then map (\<lambda>n. wrapT (n - smallest)) row else row)
               = map (\<lambda>x. x - Min (set row)) row
             \<and> (\<forall>x\<in>set row. 0 \<le> x - Min (set row) \<and> x - Min (set row) \<le> T_max)"
    if "row \<in> set mat" for row
  proof -
    from assms that have ne: "row \<noteq> []" and b: "\<And>x. x \<in> set row \<Longrightarrow> 0 \<le> x \<and> x \<le> T_max"
      by blast+
    have me: "min_element row = Min (set row)" using ne by (rule min_element_Min)
    have "Min (set row) \<in> set row" using ne by (simp add: Min_in)
    then have m0: "0 \<le> Min (set row)" using b by blast
    have le: "Min (set row) \<le> x" if "x \<in> set row" for x using that by simp
    have rg: "0 \<le> x - Min (set row) \<and> x - Min (set row) \<le> T_max" if "x \<in> set row" for x
      using le [OF that] b [OF that] m0 by simp
    have "wrapT (x - Min (set row)) = x - Min (set row)" if "x \<in> set row" for x
      using rg [OF that] by (intro wrapT_id) (simp add: in_range_def)
    then have "map (\<lambda>n. wrapT (n - Min (set row))) row = map (\<lambda>x. x - Min (set row)) row"
      by (intro map_cong refl) blast
    moreover have "row = map (\<lambda>x. x - Min (set row)) row" if "\<not> Min (set row) > 0"
    proof -
      from that m0 have "Min (set row) = 0" by simp
      then show ?thesis by simp
    qed
    ultimately show ?thesis using rg by (auto simp: me Let_def)
  qed
  then have "map (\<lambda>row. let smallest = min_element row
                 in if smallest > 0 then map (\<lambda>n. wrapT (n - smallest)) row else row) mat
      = map (\<lambda>row. map (\<lambda>x. x - Min (set row)) row) mat"
    by (intro map_cong refl) blast
  then show ?thesis using row by (simp add: step1_def)
qed

lemma length_resize: "length (resize n v xs) = n"
  by (simp add: resize_def)

lemma set_resize: "set (resize n v xs) \<subseteq> insert v (set xs)"
  using set_take_subset [of n xs] by (auto simp: resize_def)

lemma pad_matrix_entries:
  assumes "row \<in> set (pad_matrix m)" "x \<in> set row"
  shows "x = T_max \<or> (\<exists>row'\<in>set m. x \<in> set row')"
proof -
  from assms(1) consider "row \<in> set m" | "\<exists>row'\<in>set m. row = resize (length m) T_max row'"
    | "row = replicate (length (m ! 0)) T_max"
    by (auto simp: pad_matrix_def Let_def split: if_splits)
  then show ?thesis
  proof cases
    case 1
    with assms(2) show ?thesis by blast
  next
    case 2
    then obtain row' where "row' \<in> set m" "row = resize (length m) T_max row'" by blast
    with assms(2) set_resize [of "length m" T_max row'] show ?thesis by blast
  next
    case 3
    with assms(2) show ?thesis by simp
  qed
qed

lemma pad_matrix_nonempty:
  assumes "well_formed m" "row \<in> set (pad_matrix m)"
  shows "row \<noteq> []"
proof -
  from assms(1) have ne: "m \<noteq> []" and len: "\<And>r. r \<in> set m \<Longrightarrow> length r = length (m ! 0)"
    unfolding well_formed_def list_all_iff by blast+
  from ne have pos: "0 < length m" by simp
  from assms(2) consider "row \<in> set m" "length m \<le> length (m ! 0)"
    | "\<exists>row'\<in>set m. row = resize (length m) T_max row'"
    | "row = replicate (length (m ! 0)) T_max" "length m < length (m ! 0)"
    by (auto simp: pad_matrix_def Let_def split: if_splits)
  then have "0 < length row"
  proof cases
    case 1
    from len [OF 1(1)] 1(2) pos show ?thesis by linarith
  next
    case 2
    then obtain row' where "row = resize (length m) T_max row'" by blast
    then have "length row = length m" by (simp add: length_resize)
    with pos show ?thesis by simp
  next
    case 3
    then have "length row = length (m ! 0)" by simp
    with 3(2) show ?thesis by linarith
  qed
  then show ?thesis by simp
qed

lemma well_formed_map: "well_formed m \<Longrightarrow> well_formed (map (map f) m)"
  unfolding well_formed_def list_all_iff
proof (intro conjI ballI)
  assume a: "m \<noteq> [] \<and> (\<forall>row\<in>set m. length row = length (m ! 0))"
  then show "map (map f) m \<noteq> []" by simp
  fix row assume "row \<in> set (map (map f) m)"
  then obtain row' where "row' \<in> set m" "row = map f row'" by auto
  with a have "length row' = length (m ! 0)" by blast
  with \<open>row = map f row'\<close> have "length row = length (m ! 0)" by simp
  moreover have "m \<noteq> []" using a by blast
  then have "map (map f) m ! 0 = map f (m ! 0)" by (simp add: nth_map)
  ultimately show "length row = length (map (map f) m ! 0)" by simp
qed

text \<open>The shift of \<open>handle_negatives\<close> when no entry is the minimum of \<open>T\<close> and no two
  entries differ by more than its maximum: \<open>abs(minval)\<close> is a value \<open>k\<close> of \<open>T\<close>, the
  negated least entry, and every sum \<open>x + k\<close> is computed exactly.\<close>

lemma handle_negatives_exact:
  assumes rng: "\<forall>row\<in>set mat. \<forall>x\<in>set row. - T_max \<le> x \<and> x \<le> T_max"
    and spread: "\<forall>row\<in>set mat. \<forall>x\<in>set row. \<forall>row'\<in>set mat. \<forall>y\<in>set row'. x - y \<le> T_max"
  shows "\<exists>k. 0 \<le> k \<and> k \<le> T_max \<and> (k = 0 \<or> (\<exists>row\<in>set mat. - k \<in> set row))
             \<and> handle_negatives mat True = Inr (map (map (\<lambda>x. x + k)) mat)
             \<and> (\<forall>row\<in>set mat. \<forall>x\<in>set row. 0 \<le> x + k \<and> x + k \<le> T_max)"
proof -
  define mn where "mn = fold (\<lambda>elem m. fold (\<lambda>num m'. min m' num) elem m) mat T_max"
  from fold_min_matrix [of mat T_max]
  have mn: "mn = T_max \<or> (\<exists>row\<in>set mat. mn \<in> set row)" "mn \<le> T_max"
    "\<And>row x. row \<in> set mat \<Longrightarrow> x \<in> set row \<Longrightarrow> mn \<le> x"
    unfolding mn_def by blast+
  show ?thesis
  proof (cases "mn < 0")
    case False
    then have "handle_negatives mat True = Inr (map (map (\<lambda>x. x + 0)) mat)"
      by (simp add: handle_negatives_def mn_def [symmetric])
    moreover have "\<forall>row\<in>set mat. \<forall>x\<in>set row. 0 \<le> x + 0 \<and> x + 0 \<le> T_max"
      using mn(3) False rng by fastforce
    moreover have "(0::int) \<le> T_max" by (simp add: T_max_def)
    ultimately show ?thesis by blast
  next
    case True
    then have "mn \<noteq> T_max" by (simp add: T_max_def)
    with mn(1) obtain row0 where row0: "row0 \<in> set mat" "mn \<in> set row0" by blast
    with rng have lo: "- T_max \<le> mn" by blast
    then have "in_range (- mn)" using True by (simp add: in_range_def T_max_def)
    then have ab: "wrapT \<bar>mn\<bar> = - mn" using True by (simp add: wrapT_id)
    have exact: "wrapT (x + wrapT \<bar>mn\<bar>) = x + (- mn) \<and> 0 \<le> x + (- mn) \<and> x + (- mn) \<le> T_max"
      if "row \<in> set mat" "x \<in> set row" for row x
    proof -
      have "x - mn \<le> T_max" using spread that row0 by blast
      moreover have "0 \<le> x - mn" using mn(3) [OF that] by simp
      ultimately have "in_range (x - mn)" by (simp add: in_range_def)
      then have "wrapT (x - mn) = x - mn" by (rule wrapT_id)
      then show ?thesis using \<open>x - mn \<le> T_max\<close> \<open>0 \<le> x - mn\<close> by (simp add: ab)
    qed
    have "map (map (\<lambda>num. wrapT (num + wrapT \<bar>mn\<bar>))) mat = map (map (\<lambda>x. x + (- mn))) mat"
      using exact by (intro map_cong refl) blast+
    then have "handle_negatives mat True = Inr (map (map (\<lambda>x. x + (- mn))) mat)"
      using True by (simp add: handle_negatives_def mn_def [symmetric] Let_def)
    moreover have "0 \<le> - mn" "- mn \<le> T_max" using True lo by simp_all
    moreover have "\<exists>row\<in>set mat. - (- mn) \<in> set row" using row0 by auto
    ultimately show ?thesis using exact by blast
  qed
qed

text \<open>\<open>find_smallest\<close>: the start value or an uncovered entry, and at most the start value
  and every uncovered entry.\<close>

definition smallest_upto ::
  "nat \<Rightarrow> int list list \<Rightarrow> int list \<Rightarrow> int list \<Rightarrow> int \<Rightarrow> nat \<Rightarrow> nat \<Rightarrow> int \<Rightarrow> bool" where
  "smallest_upto n mat rc cc m0 i j m \<longleftrightarrow>
     m \<le> m0 \<and>
     (m = m0 \<or> (\<exists>r<n. \<exists>c<n. rc ! r = 0 \<and> cc ! c = 0 \<and> m = mat ! r ! c)) \<and>
     (\<forall>r<n. \<forall>c<n. (r < i \<or> r = i \<and> c < j) \<and> rc ! r = 0 \<and> cc ! c = 0 \<longrightarrow> m \<le> mat ! r ! c)"

lemma smallest_upto_cell:
  assumes "smallest_upto n mat rc cc m0 i j m" "i < n" "j < n"
  shows "smallest_upto n mat rc cc m0 i (Suc j)
           (if rc ! i = 0 \<and> cc ! j = 0 then (if m > mat ! i ! j then mat ! i ! j else m) else m)"
proof -
  from assms(1) have a: "m \<le> m0"
    and b: "m = m0 \<or> (\<exists>r<n. \<exists>c<n. rc ! r = 0 \<and> cc ! c = 0 \<and> m = mat ! r ! c)"
    and c: "\<And>r c. r < n \<Longrightarrow> c < n \<Longrightarrow> r < i \<or> r = i \<and> c < j \<Longrightarrow> rc ! r = 0 \<Longrightarrow> cc ! c = 0
              \<Longrightarrow> m \<le> mat ! r ! c"
    by (simp_all add: smallest_upto_def)
  let ?m = "if rc ! i = 0 \<and> cc ! j = 0 then (if m > mat ! i ! j then mat ! i ! j else m) else m"
  have le: "?m \<le> m" by simp
  have 1: "?m \<le> m0" using a le by linarith
  have 2: "?m = m0 \<or> (\<exists>r<n. \<exists>c<n. rc ! r = 0 \<and> cc ! c = 0 \<and> ?m = mat ! r ! c)"
  proof (cases "rc ! i = 0 \<and> cc ! j = 0 \<and> m > mat ! i ! j")
    case True
    then have "?m = mat ! i ! j" by simp
    with True assms(2,3) show ?thesis by blast
  next
    case False
    then have "?m = m" by auto
    with b show ?thesis by simp
  qed
  have 3: "\<forall>r<n. \<forall>c<n. (r < i \<or> r = i \<and> c < Suc j) \<and> rc ! r = 0 \<and> cc ! c = 0 \<longrightarrow> ?m \<le> mat ! r ! c"
  proof (intro allI impI)
    fix r c assume bd: "r < n" "c < n"
      and h: "(r < i \<or> r = i \<and> c < Suc j) \<and> rc ! r = 0 \<and> cc ! c = 0"
    show "?m \<le> mat ! r ! c"
    proof (cases "r = i \<and> c = j")
      case True
      with h show ?thesis by simp
    next
      case False
      with h have "r < i \<or> r = i \<and> c < j" by auto
      from c [OF bd this] h have "m \<le> mat ! r ! c" by blast
      with le show ?thesis by linarith
    qed
  qed
  from 1 2 3 show ?thesis unfolding smallest_upto_def by blast
qed

lemma find_smallest_spec:
  assumes "length mat = n"
  shows "find_smallest m0 mat rc cc \<le> m0"
    and "find_smallest m0 mat rc cc = m0
         \<or> (\<exists>r<n. \<exists>c<n. rc ! r = 0 \<and> cc ! c = 0 \<and> find_smallest m0 mat rc cc = mat ! r ! c)"
    and "\<And>r c. r < n \<Longrightarrow> c < n \<Longrightarrow> rc ! r = 0 \<Longrightarrow> cc ! c = 0
           \<Longrightarrow> find_smallest m0 mat rc cc \<le> mat ! r ! c"
proof -
  let ?g = "\<lambda>r c m. if rc ! r = 0 \<and> cc ! c = 0
                      then (if m > mat ! r ! c then mat ! r ! c else m) else m"
  have row: "smallest_upto n mat rc cc m0 (Suc i) 0 (fold (?g i) [0..<n] m)"
    if "smallest_upto n mat rc cc m0 i 0 m" "i < n" for i m
  proof -
    have "smallest_upto n mat rc cc m0 i n (fold (?g i) [0..<n] m)"
    proof (rule fold_upt_inv [where P = "\<lambda>j. smallest_upto n mat rc cc m0 i j"])
      show "smallest_upto n mat rc cc m0 i 0 m" by (rule that(1))
    next
      fix j m' assume "j < n" "smallest_upto n mat rc cc m0 i j m'"
      then show "smallest_upto n mat rc cc m0 i (Suc j) (?g i j m')"
        using smallest_upto_cell that(2) by blast
    qed
    then show ?thesis by (auto simp: smallest_upto_def less_Suc_eq)
  qed
  have "smallest_upto n mat rc cc m0 n 0 (fold (\<lambda>r. fold (?g r) [0..<n]) [0..<n] m0)"
  proof (rule fold_upt_inv [where P = "\<lambda>i. smallest_upto n mat rc cc m0 i 0"])
    show "smallest_upto n mat rc cc m0 0 0 m0" by (simp add: smallest_upto_def)
  next
    fix i m assume "i < n" "smallest_upto n mat rc cc m0 i 0 m"
    then show "smallest_upto n mat rc cc m0 (Suc i) 0 (fold (?g i) [0..<n] m)"
      using row by blast
  qed
  then have s: "smallest_upto n mat rc cc m0 n 0 (find_smallest m0 mat rc cc)"
    using assms by (simp add: find_smallest_def)
  from s show "find_smallest m0 mat rc cc \<le> m0" by (simp add: smallest_upto_def)
  from s show "find_smallest m0 mat rc cc = m0
         \<or> (\<exists>r<n. \<exists>c<n. rc ! r = 0 \<and> cc ! c = 0 \<and> find_smallest m0 mat rc cc = mat ! r ! c)"
    unfolding smallest_upto_def by blast
  fix r c assume "r < n" "c < n" "rc ! r = 0" "cc ! c = 0"
  with s show "find_smallest m0 mat rc cc \<le> mat ! r ! c" unfolding smallest_upto_def by blast
qed


text \<open>Step 6 on a matrix of entries between 0 and the maximum of \<open>T\<close>, when every entry
  of a covered row has room for the smallest uncovered value: the sums and differences
  are computed exactly and the entries stay between 0 and the maximum of \<open>T\<close>.\<close>

lemma step6_exact:
  assumes sq: "square n mat"
    and rc: "\<forall>r<n. rc ! r = 0 \<or> rc ! r = 1"
    and rng: "\<forall>r<n. \<forall>c<n. 0 \<le> mat ! r ! c \<and> mat ! r ! c \<le> T_max"
    and room: "\<forall>r<n. \<forall>c<n. rc ! r = 1
                 \<longrightarrow> mat ! r ! c + find_smallest T_max mat rc cc \<le> T_max"
  shows "0 \<le> find_smallest T_max mat rc cc \<and> find_smallest T_max mat rc cc \<le> T_max
         \<and> snd (step6 mat rc cc) = 4
         \<and> (\<forall>r<n. \<forall>c<n.
               fst (step6 mat rc cc) ! r ! c =
                 (if rc ! r = 1
                  then (if cc ! c = 0 then mat ! r ! c
                        else mat ! r ! c + find_smallest T_max mat rc cc)
                  else (if cc ! c = 0 then mat ! r ! c - find_smallest T_max mat rc cc
                        else mat ! r ! c))
               \<and> 0 \<le> fst (step6 mat rc cc) ! r ! c \<and> fst (step6 mat rc cc) ! r ! c \<le> T_max)"
proof -
  define mv where "mv = find_smallest T_max mat rc cc"
  have len: "length mat = n" using sq by (simp add: square_def)
  note fs = find_smallest_spec [where mat = mat and n = n and ?m0.0 = T_max and rc = rc and cc = cc,
      OF len, folded mv_def]
  have hi: "mv \<le> T_max" by (rule fs(1))
  have lo: "0 \<le> mv"
  proof -
    from fs(2) consider "mv = T_max" | "\<exists>r<n. \<exists>c<n. mv = mat ! r ! c" by blast
    then show ?thesis
    proof cases
      case 1
      then show ?thesis by (simp add: T_max_def)
    next
      case 2
      with rng show ?thesis by auto
    qed
  qed
  have res: "fst (step6 mat rc cc)
      = fold (\<lambda>r. fold (\<lambda>c m. m[r := (m ! r)[c := step6_cell rc cc mv r c (m ! r ! c)]]) [0..<n])
             [0..<n] mat"
    and st: "snd (step6 mat rc cc) = 4"
    by (simp_all add: step6_def Let_def len mv_def)
  have cell: "fst (step6 mat rc cc) ! r ! c = step6_cell rc cc mv r c (mat ! r ! c)"
    if "r < n" "c < n" for r c
    unfolding res using fold_cells [OF sq, of "step6_cell rc cc mv"] that by blast
  have val: "step6_cell rc cc mv r c (mat ! r ! c) =
                 (if rc ! r = 1
                  then (if cc ! c = 0 then mat ! r ! c else mat ! r ! c + mv)
                  else (if cc ! c = 0 then mat ! r ! c - mv else mat ! r ! c))
             \<and> 0 \<le> step6_cell rc cc mv r c (mat ! r ! c)
             \<and> step6_cell rc cc mv r c (mat ! r ! c) \<le> T_max"
    if r: "r < n" and c: "c < n" for r c
  proof -
    from rng r c have x: "0 \<le> mat ! r ! c" "mat ! r ! c \<le> T_max" by blast+
    then have xr: "in_range (mat ! r ! c)" by (simp add: in_range_def T_max_def)
    show ?thesis
    proof (cases "rc ! r = 1")
      case True
      with room r c have up: "mat ! r ! c + mv \<le> T_max" by (simp add: mv_def)
      then have "in_range (mat ! r ! c + mv)" using x lo by (simp add: in_range_def T_max_def)
      then have w: "wrapT (mat ! r ! c + mv) = mat ! r ! c + mv" by (rule wrapT_id)
      show ?thesis
      proof (cases "cc ! c = 0")
        case c0: True
        have "wrapT (wrapT (mat ! r ! c + mv) - mv) = mat ! r ! c" using xr by (rule wrapT_add_sub)
        with True c0 x show ?thesis by (simp add: step6_cell_def Let_def)
      next
        case False
        with True w up x lo show ?thesis by (simp add: step6_cell_def Let_def)
      qed
    next
      case False
      with rc r have r0: "rc ! r = 0" by blast
      show ?thesis
      proof (cases "cc ! c = 0")
        case True
        from fs(3) [OF r c r0 True] have le: "mv \<le> mat ! r ! c" .
        then have "in_range (mat ! r ! c - mv)" using x lo by (simp add: in_range_def T_max_def)
        then have "wrapT (mat ! r ! c - mv) = mat ! r ! c - mv" by (rule wrapT_id)
        with True False le x lo show ?thesis by (simp add: step6_cell_def Let_def)
      next
        case c1: False
        with False x show ?thesis by (simp add: step6_cell_def Let_def)
      qed
    qed
  qed
  show ?thesis
    unfolding mv_def [symmetric]
  proof (intro conjI allI impI)
    show "0 \<le> mv" by (rule lo)
    show "mv \<le> T_max" by (rule hi)
    show "snd (step6 mat rc cc) = 4" by (rule st)
  next
    fix r c assume b: "r < n" "c < n"
    show "fst (step6 mat rc cc) ! r ! c =
                 (if rc ! r = 1
                  then (if cc ! c = 0 then mat ! r ! c else mat ! r ! c + mv)
                  else (if cc ! c = 0 then mat ! r ! c - mv else mat ! r ! c))"
      using cell [OF b] val [OF b] by simp
    show "0 \<le> fst (step6 mat rc cc) ! r ! c" using cell [OF b] val [OF b] by simp
    show "fst (step6 mat rc cc) ! r ! c \<le> T_max" using cell [OF b] val [OF b] by simp
  qed
qed

text \<open>The errors of the solver: the out-of-bounds access, and the error for negative
  values on an input that holds one when negative values are not allowed.\<close>

lemma hungarian_errors:
  assumes "hungarian original allow = Some (Inl e)"
  shows "e = OutOfBounds \<or> (e = NegativeValues \<and> \<not> allow \<and> has_negative original)"
proof (cases e)
  case OutOfBounds
  then show ?thesis by simp
next
  case NegativeValues
  let ?cols = "length (original ! 0)"
  let ?copy = "map (\<lambda>row. row @ replicate (?cols - length row) 0) original"
  have neg: "(\<exists>row\<in>set ?copy. \<exists>x\<in>set row. x < 0) \<longleftrightarrow> has_negative original"
    by (auto simp: has_negative_iff)
  from assms NegativeValues have h: "hungarian original allow = Some (Inl NegativeValues)"
    by simp
  have hs: "hungarian_state original allow = Some (Inl NegativeValues)"
  proof (cases "hungarian_state original allow")
    case None
    with h show ?thesis by (simp add: hungarian_def)
  next
    case (Some res)
    show ?thesis
    proof (cases res)
      case (Inl e')
      with Some h show ?thesis by (simp add: hungarian_def)
    next
      case (Inr s)
      with Some h have "output_solution original (M s) = Inl NegativeValues"
        by (simp add: hungarian_def)
      from output_solution_error [OF this] show ?thesis by simp
    qed
  qed
  then have ne: "original \<noteq> []" and len: "\<not> list_ex (\<lambda>row. length row > ?cols) original"
    by (auto simp: hungarian_state_def Let_def split: if_splits)
  show ?thesis
  proof (cases "handle_negatives ?copy allow")
    case (Inl e')
    with hs ne len have "e' = NegativeValues" by (simp add: hungarian_state_def Let_def)
    with Inl have "\<not> allow \<and> has_negative original"
      using neg by (simp add: handle_negatives_error)
    with NegativeValues show ?thesis by simp
  next
    case (Inr m)
    with hs ne len have "run (length original) ?cols
               \<lparr>matrix = pad_matrix m,
                  M = replicate (length (pad_matrix m)) (replicate (length (pad_matrix m)) 0),
                  RowCover = replicate (length (pad_matrix m)) 0,
                  ColCover = replicate (length (pad_matrix m)) 0,
                  path_row_0 = 0, path_col_0 = 0,
                  path = replicate (length (pad_matrix m) + 1) (0, 0), step = 1\<rparr>
           = Some (Inl NegativeValues)"
      by (simp add: hungarian_state_def Let_def)
    from run_error [OF this] show ?thesis by simp
  qed
qed

text \<open>
  Claim C9: all internal arithmetic (the shift by \<open>abs(min)\<close>, the row reductions of
  step 1, the additions and subtractions of step 6, also on padding entries equal to the
  maximum of \<open>T\<close>) either stays within the range of \<open>T\<close> or makes the solver fail with
  an overflow error; a result is never a silently wrapped value. Two inputs whose entries
  are values of \<open>T\<close> show otherwise. For \<open>[[-1, 2147483647], [-1, 0]]\<close> the shift by
  \<open>abs(min) = 1\<close> takes 2147483647 to -2147483648, and the solver goes on to return
  2147483646 (rows 0, 1 assigned to columns 1, 0), where the assignment of least cost, to
  columns 0, 1, costs -1. For \<open>[[0, 2147483647, 0], [3, 0, 4], [2, 0, 6]]\<close>, which has no
  negative entry, step 4 covers row 0 and column 1, step 6 adds the smallest uncovered
  value 2 to the entry 2147483647 of row 0 and column 1 and stores -2147483647, and the
  solver ends in step 7 with that entry in its matrix and returns 2. Neither run raises
  an error. For a least entry equal to the minimum of \<open>T\<close>, \<open>abs(min)\<close> itself is
  not a value of \<open>T\<close>; wrapped, it is that minimum again.
\<close>

theorem arithmetic_wraps_silently:
  "handle_negatives [[- 1, 2147483647], [- 1, 0]] True = Inr [[0, - 2147483648], [0, 1]]
   \<and> hungarian [[- 1, 2147483647], [- 1, 0]] True = Some (Inr 2147483646)
   \<and> step4 [[0, 2147483647, 0], [3, 0, 4], [2, 0, 6]] [[1, 0, 0], [0, 1, 0], [0, 0, 0]]
        [0, 0, 0] [1, 1, 0] 0 0
        = Some ([[1, 0, 2], [0, 1, 0], [0, 0, 0]], [1, 0, 0], [0, 1, 0], 0, 0, 6)
   \<and> find_smallest T_max [[0, 2147483647, 0], [3, 0, 4], [2, 0, 6]] [1, 0, 0] [0, 1, 0] = 2
   \<and> step6 [[0, 2147483647, 0], [3, 0, 4], [2, 0, 6]] [1, 0, 0] [0, 1, 0]
        = ([[0, - 2147483647, 0], [1, 0, 2], [0, 0, 4]], 4)
   \<and> hungarian_state [[0, 2147483647, 0], [3, 0, 4], [2, 0, 6]] False
        = Some (Inr \<lparr>matrix = [[0, - 2147483647, 0], [1, 0, 2], [0, 0, 4]],
                      M = [[0, 0, 1], [0, 1, 0], [1, 0, 0]], RowCover = [0, 0, 0],
                      ColCover = [1, 1, 1], path_row_0 = 2, path_col_0 = 0,
                      path = [(2, 0), (0, 0), (0, 2), (0, 0)], step = 7\<rparr>)
   \<and> hungarian [[0, 2147483647, 0], [3, 0, 4], [2, 0, 6]] False = Some (Inr 2)
   \<and> wrapT \<bar>- 2147483648\<bar> = - 2147483648"
  by code_simp

text \<open>
  Claim C9, amended: the internal arithmetic stays within the range of \<open>T\<close>, and is then
  exact, under the following conditions; no run of the solver ends in an overflow error.

  \<^item> The shift, on a well-formed input whose entries lie between minus the maximum and the
    maximum of \<open>T\<close> and of which no two differ by more than that maximum: \<open>abs(min)\<close> is
    a value \<open>k\<close> between 0 and the maximum of \<open>T\<close> (0, or the negated least entry), and
    every entry \<open>x\<close> becomes \<open>x + k\<close>, between 0 and the maximum of \<open>T\<close>.

  \<^item> The row reductions of step 1 on the padded matrix after such a shift, also in rows
    that hold the padding value: every entry \<open>x\<close> becomes \<open>x\<close> minus the least entry of
    its row, between 0 and the maximum of \<open>T\<close>.

  \<^item> Step 6, on a square matrix of entries between 0 and the maximum of \<open>T\<close> with row
    covers 0 or 1, when every entry of a covered row plus the smallest uncovered value is
    at most the maximum of \<open>T\<close>: the smallest uncovered value \<open>v\<close> lies between 0 and the
    maximum of \<open>T\<close>; an entry \<open>x\<close> in a covered row becomes \<open>x + v\<close> under a covered
    column and \<open>x\<close> otherwise, an entry in an uncovered row becomes \<open>x - v\<close> under an
    uncovered column and \<open>x\<close> otherwise; and the new entries lie between 0 and the
    maximum of \<open>T\<close>.

  \<^item> A run of the solver that ends in an error ends in the out-of-bounds access or, on an
    input with a negative entry when negative values are not allowed, in the error for
    negative values; arithmetic that leaves the range is not among the causes.
\<close>

theorem arithmetic_in_range:
  "(well_formed original
      \<and> (\<forall>row\<in>set original. \<forall>x\<in>set row. - T_max \<le> x \<and> x \<le> T_max)
      \<and> (\<forall>row\<in>set original. \<forall>x\<in>set row. \<forall>row'\<in>set original. \<forall>y\<in>set row'.
            x - y \<le> T_max)
    \<longrightarrow> (\<exists>k. 0 \<le> k \<and> k \<le> T_max \<and> (k = 0 \<or> (\<exists>row\<in>set original. - k \<in> set row))
           \<and> handle_negatives original True = Inr (map (map (\<lambda>x. x + k)) original)
           \<and> (\<forall>row\<in>set original. \<forall>x\<in>set row. 0 \<le> x + k \<and> x + k \<le> T_max)
           \<and> step1 (pad_matrix (map (map (\<lambda>x. x + k)) original))
               = (map (\<lambda>row. map (\<lambda>x. x - Min (set row)) row)
                      (pad_matrix (map (map (\<lambda>x. x + k)) original)), 2)
           \<and> (\<forall>row\<in>set (pad_matrix (map (map (\<lambda>x. x + k)) original)). \<forall>x\<in>set row.
                 0 \<le> x - Min (set row) \<and> x - Min (set row) \<le> T_max)))
   \<and> (square n mat \<and> (\<forall>r<n. rc ! r = 0 \<or> rc ! r = 1)
      \<and> (\<forall>r<n. \<forall>c<n. 0 \<le> mat ! r ! c \<and> mat ! r ! c \<le> T_max)
      \<and> (\<forall>r<n. \<forall>c<n. rc ! r = 1 \<longrightarrow> mat ! r ! c + find_smallest T_max mat rc cc \<le> T_max)
    \<longrightarrow> 0 \<le> find_smallest T_max mat rc cc \<and> find_smallest T_max mat rc cc \<le> T_max
        \<and> snd (step6 mat rc cc) = 4
        \<and> (\<forall>r<n. \<forall>c<n.
              fst (step6 mat rc cc) ! r ! c =
                (if rc ! r = 1
                 then (if cc ! c = 0 then mat ! r ! c
                       else mat ! r ! c + find_smallest T_max mat rc cc)
                 else (if cc ! c = 0 then mat ! r ! c - find_smallest T_max mat rc cc
                       else mat ! r ! c))
              \<and> 0 \<le> fst (step6 mat rc cc) ! r ! c \<and> fst (step6 mat rc cc) ! r ! c \<le> T_max))
   \<and> (hungarian original allow_negatives = Some (Inl e)
    \<longrightarrow> e = OutOfBounds \<or> (e = NegativeValues \<and> \<not> allow_negatives \<and> has_negative original))"
proof (rule conjI [OF impI conjI [OF impI impI]])
  assume a: "well_formed original
      \<and> (\<forall>row\<in>set original. \<forall>x\<in>set row. - T_max \<le> x \<and> x \<le> T_max)
      \<and> (\<forall>row\<in>set original. \<forall>x\<in>set row. \<forall>row'\<in>set original. \<forall>y\<in>set row'.
            x - y \<le> T_max)"
  then have wf: "well_formed original"
    and rng: "\<forall>row\<in>set original. \<forall>x\<in>set row. - T_max \<le> x \<and> x \<le> T_max"
    and spread: "\<forall>row\<in>set original. \<forall>x\<in>set row. \<forall>row'\<in>set original. \<forall>y\<in>set row'.
            x - y \<le> T_max"
    by blast+
  from handle_negatives_exact [OF rng spread]
  obtain k where k: "0 \<le> k" "k \<le> T_max" "k = 0 \<or> (\<exists>row\<in>set original. - k \<in> set row)"
    "handle_negatives original True = Inr (map (map (\<lambda>x. x + k)) original)"
    "\<forall>row\<in>set original. \<forall>x\<in>set row. 0 \<le> x + k \<and> x + k \<le> T_max" by blast
  let ?m = "map (map (\<lambda>x. x + k)) original"
  have wf': "well_formed ?m" using wf by (rule well_formed_map)
  have "\<forall>row\<in>set (pad_matrix ?m). row \<noteq> [] \<and> (\<forall>x\<in>set row. 0 \<le> x \<and> x \<le> T_max)"
  proof (intro ballI conjI)
    fix row assume row: "row \<in> set (pad_matrix ?m)"
    show "row \<noteq> []" using pad_matrix_nonempty [OF wf' row] .
    fix x assume x: "x \<in> set row"
    from pad_matrix_entries [OF row x] k(5)
    have "x = T_max \<or> (0 \<le> x \<and> x \<le> T_max)" by auto
    then show "0 \<le> x" "x \<le> T_max" by (auto simp: T_max_def)
  qed
  from step1_exact [OF this] k
  show "\<exists>k. 0 \<le> k \<and> k \<le> T_max \<and> (k = 0 \<or> (\<exists>row\<in>set original. - k \<in> set row))
           \<and> handle_negatives original True = Inr (map (map (\<lambda>x. x + k)) original)
           \<and> (\<forall>row\<in>set original. \<forall>x\<in>set row. 0 \<le> x + k \<and> x + k \<le> T_max)
           \<and> step1 (pad_matrix (map (map (\<lambda>x. x + k)) original))
               = (map (\<lambda>row. map (\<lambda>x. x - Min (set row)) row)
                      (pad_matrix (map (map (\<lambda>x. x + k)) original)), 2)
           \<and> (\<forall>row\<in>set (pad_matrix (map (map (\<lambda>x. x + k)) original)). \<forall>x\<in>set row.
                 0 \<le> x - Min (set row) \<and> x - Min (set row) \<le> T_max)"
    by blast
next
  assume "square n mat \<and> (\<forall>r<n. rc ! r = 0 \<or> rc ! r = 1)
      \<and> (\<forall>r<n. \<forall>c<n. 0 \<le> mat ! r ! c \<and> mat ! r ! c \<le> T_max)
      \<and> (\<forall>r<n. \<forall>c<n. rc ! r = 1 \<longrightarrow> mat ! r ! c + find_smallest T_max mat rc cc \<le> T_max)"
  then have sq: "square n mat" and rc: "\<forall>r<n. rc ! r = 0 \<or> rc ! r = 1"
    and rng: "\<forall>r<n. \<forall>c<n. 0 \<le> mat ! r ! c \<and> mat ! r ! c \<le> T_max"
    and room: "\<forall>r<n. \<forall>c<n. rc ! r = 1 \<longrightarrow> mat ! r ! c + find_smallest T_max mat rc cc \<le> T_max"
    by blast+
  from step6_exact [OF sq rc rng room]
  show "0 \<le> find_smallest T_max mat rc cc \<and> find_smallest T_max mat rc cc \<le> T_max
        \<and> snd (step6 mat rc cc) = 4
        \<and> (\<forall>r<n. \<forall>c<n.
              fst (step6 mat rc cc) ! r ! c =
                (if rc ! r = 1
                 then (if cc ! c = 0 then mat ! r ! c
                       else mat ! r ! c + find_smallest T_max mat rc cc)
                 else (if cc ! c = 0 then mat ! r ! c - find_smallest T_max mat rc cc
                       else mat ! r ! c))
              \<and> 0 \<le> fst (step6 mat rc cc) ! r ! c \<and> fst (step6 mat rc cc) ! r ! c \<le> T_max)" .
next
  assume "hungarian original allow_negatives = Some (Inl e)"
  then show "e = OutOfBounds \<or> (e = NegativeValues \<and> \<not> allow_negatives \<and> has_negative original)"
    by (rule hungarian_errors)
qed


text \<open>The theorem at \<open>[[1,-2],[3,4]]\<close>, which the shift takes to \<open>[[3,0],[5,6]]\<close> and
  step 1 to \<open>[[3,0],[0,1]]\<close> and which is refused when negative values are not allowed,
  and at the matrix \<open>[[0,5,0],[3,0,4],[2,0,6]]\<close> with row 0 and column 1 covered, where
  step 6 turns the entry 5 into 7 and the entry 3 into 1.\<close>

theorem arithmetic_in_range_witness:
  "well_formed [[1, - 2], [3, 4]]
   \<and> handle_negatives [[1, - 2], [3, 4]] True = Inr [[3, 0], [5, 6]]
   \<and> step1 (pad_matrix [[3, 0], [5, 6]]) = ([[3, 0], [0, 1]], 2)
   \<and> (\<exists>k. 0 \<le> k \<and> k \<le> T_max
          \<and> handle_negatives [[1, - 2], [3, 4]] True
                = Inr (map (map (\<lambda>x. x + k)) [[1, - 2], [3, 4]]))
   \<and> square 3 [[0, 5, 0], [3, 0, 4], [2, 0, 6 :: int]]
   \<and> find_smallest T_max [[0, 5, 0], [3, 0, 4], [2, 0, 6]] [1, 0, 0] [0, 1, 0] = 2
   \<and> fst (step6 [[0, 5, 0], [3, 0, 4], [2, 0, 6]] [1, 0, 0] [0, 1, 0]) ! 0 ! 1 = 5 + 2
   \<and> fst (step6 [[0, 5, 0], [3, 0, 4], [2, 0, 6]] [1, 0, 0] [0, 1, 0]) ! 1 ! 0 = 3 - 2
   \<and> hungarian [[1, - 2], [3, 4]] False = Some (Inl NegativeValues)
   \<and> has_negative [[1, - 2], [3, 4]]"
proof -
  let ?X = "[[1, - 2], [3, 4]] :: int list list"
  let ?Y = "[[0, 5, 0], [3, 0, 4], [2, 0, 6]] :: int list list"
  let ?rc = "[1, 0, 0] :: int list"
  let ?cc = "[0, 1, 0] :: int list"
  have wf: "well_formed ?X" by (simp add: well_formed_def)
  have rng: "\<forall>row\<in>set ?X. \<forall>x\<in>set row. - T_max \<le> x \<and> x \<le> T_max"
    by (simp add: T_max_def)
  have spread: "\<forall>row\<in>set ?X. \<forall>x\<in>set row. \<forall>row'\<in>set ?X. \<forall>y\<in>set row'. x - y \<le> T_max"
    by (simp add: T_max_def)
  have h: "handle_negatives ?X True = Inr [[3, 0], [5, 6]]" by code_simp
  have s: "step1 (pad_matrix [[3, 0], [5, 6]]) = ([[3, 0], [0, 1]], 2)" by code_simp
  have sq: "square 3 ?Y" by (simp add: square_def less_Suc_eq numeral_3_eq_3)
  have mv: "find_smallest T_max ?Y ?rc ?cc = 2" by code_simp
  have rc: "\<forall>r<3. ?rc ! r = 0 \<or> ?rc ! r = 1" by (simp add: less_Suc_eq numeral_3_eq_3)
  have yr: "\<forall>r<3. \<forall>c<3. 0 \<le> ?Y ! r ! c \<and> ?Y ! r ! c \<le> T_max"
    by (simp add: less_Suc_eq numeral_3_eq_3 T_max_def)
  have room: "\<forall>r<3. \<forall>c<3. ?rc ! r = 1 \<longrightarrow> ?Y ! r ! c + find_smallest T_max ?Y ?rc ?cc \<le> T_max"
    unfolding mv by (simp add: less_Suc_eq numeral_3_eq_3 T_max_def)
  have err: "hungarian ?X False = Some (Inl NegativeValues)" by code_simp
  note inst = arithmetic_in_range [where original = ?X and n = 3 and mat = ?Y and rc = ?rc
      and cc = ?cc and allow_negatives = False and e = NegativeValues]
  from inst wf rng spread
  have a: "\<exists>k. 0 \<le> k \<and> k \<le> T_max
          \<and> handle_negatives ?X True = Inr (map (map (\<lambda>x. x + k)) ?X)" by blast
  from inst sq rc yr room
  have cells: "\<forall>r<3. \<forall>c<3.
              fst (step6 ?Y ?rc ?cc) ! r ! c =
                (if ?rc ! r = 1
                 then (if ?cc ! c = 0 then ?Y ! r ! c
                       else ?Y ! r ! c + find_smallest T_max ?Y ?rc ?cc)
                 else (if ?cc ! c = 0 then ?Y ! r ! c - find_smallest T_max ?Y ?rc ?cc
                       else ?Y ! r ! c))
              \<and> 0 \<le> fst (step6 ?Y ?rc ?cc) ! r ! c \<and> fst (step6 ?Y ?rc ?cc) ! r ! c \<le> T_max"
    by blast
  have b: "(0::nat) < 3" "(1::nat) < 3" by simp_all
  from cells b have c01: "fst (step6 ?Y ?rc ?cc) ! 0 ! 1 = 5 + 2"
    unfolding mv by simp
  from cells b have c10: "fst (step6 ?Y ?rc ?cc) ! 1 ! 0 = 3 - 2"
    unfolding mv by simp
  from inst err have neg: "has_negative ?X" by blast
  show ?thesis
    by (intro conjI) (rule wf h s a sq mv c01 c10 err neg)+
qed

section \<open>Inputs of size zero\<close>

text \<open>Step 2 leaves no zero that it could still star: every zero of the matrix has a starred
  cell in its row or in its column.\<close>

definition step2_done ::
  "nat \<Rightarrow> int list list \<Rightarrow> nat \<Rightarrow> nat \<Rightarrow> int list list \<times> int list \<times> int list \<Rightarrow> bool" where
  "step2_done n m i j = (\<lambda>(Mk, rc, cc).
     step2_inv n (Mk, rc, cc) \<and>
     (\<forall>r<n. rc ! r \<noteq> 0 \<longrightarrow> (\<exists>c<n. Mk ! r ! c = 1)) \<and>
     (\<forall>c<n. cc ! c \<noteq> 0 \<longrightarrow> (\<exists>r<n. Mk ! r ! c = 1)) \<and>
     (\<forall>r<n. \<forall>c<n. (r < i \<or> r = i \<and> c < j) \<and> m ! r ! c = 0 \<longrightarrow> rc ! r \<noteq> 0 \<or> cc ! c \<noteq> 0))"

lemma step2_cell_done:
  assumes d: "step2_done n m i j st" and i: "i < n" and j: "j < n"
  shows "step2_done n m i (Suc j) (step2_cell m i j st)"
proof -
  obtain Mk rc cc where st: "st = (Mk, rc, cc)" by (cases st)
  from d st have inv: "step2_inv n (Mk, rc, cc)"
    and jr: "\<And>r. r < n \<Longrightarrow> rc ! r \<noteq> 0 \<Longrightarrow> \<exists>c<n. Mk ! r ! c = 1"
    and jc: "\<And>c. c < n \<Longrightarrow> cc ! c \<noteq> 0 \<Longrightarrow> \<exists>r<n. Mk ! r ! c = 1"
    and pr: "\<And>r c. r < n \<Longrightarrow> c < n \<Longrightarrow> r < i \<or> r = i \<and> c < j \<Longrightarrow> m ! r ! c = 0
               \<Longrightarrow> rc ! r \<noteq> 0 \<or> cc ! c \<noteq> 0"
    by (simp_all add: step2_done_def)
  from inv have sq: "square n Mk" and l: "length rc = n" "length cc = n"
    by (simp_all add: step2_inv_def)
  note inv' = step2_cell_inv [OF inv i j, of m]
  show ?thesis
  proof (cases "m ! i ! j = 0 \<and> rc ! i = 0 \<and> cc ! j = 0")
    case False
    then have res: "step2_cell m i j st = (Mk, rc, cc)" using st by (auto simp: step2_cell_def)
    have "\<forall>r<n. \<forall>c<n. (r < i \<or> r = i \<and> c < Suc j) \<and> m ! r ! c = 0 \<longrightarrow> rc ! r \<noteq> 0 \<or> cc ! c \<noteq> 0"
    proof (intro allI impI)
      fix r c assume b: "r < n" "c < n" and h: "(r < i \<or> r = i \<and> c < Suc j) \<and> m ! r ! c = 0"
      show "rc ! r \<noteq> 0 \<or> cc ! c \<noteq> 0"
      proof (cases "r = i \<and> c = j")
        case True
        with False h show ?thesis by blast
      next
        case ne: False
        with h have "r < i \<or> r = i \<and> c < j" by auto
        from pr [OF b this] h show ?thesis by blast
      qed
    qed
    with res inv jr jc show ?thesis by (simp add: step2_done_def)
  next
    case True
    let ?M = "Mk[i := (Mk ! i)[j := 1]]"
    have res: "step2_cell m i j st = (?M, rc[i := 1], cc[j := 1])"
      using True st by (simp add: step2_cell_def)
    have nth: "\<And>r' c'. r' < n \<Longrightarrow> c' < n \<Longrightarrow>
        ?M ! r' ! c' = (if r' = i \<and> c' = j then 1 else Mk ! r' ! c')"
      using nth_upd2 [OF sq i j] by simp
    have rcn: "\<And>r. r < n \<Longrightarrow> rc[i := 1] ! r = (if r = i then 1 else rc ! r)"
      and ccn: "\<And>c. c < n \<Longrightarrow> cc[j := 1] ! c = (if c = j then 1 else cc ! c)"
      using l i j by (simp_all add: nth_update_if)
    have a: "\<forall>r<n. rc[i := 1] ! r \<noteq> 0 \<longrightarrow> (\<exists>c<n. ?M ! r ! c = 1)"
    proof (intro allI impI)
      fix r assume r: "r < n" and h: "rc[i := 1] ! r \<noteq> 0"
      show "\<exists>c<n. ?M ! r ! c = 1"
      proof (cases "r = i")
        case True
        with nth [OF r j] j show ?thesis by auto
      next
        case False
        with h rcn [OF r] have "rc ! r \<noteq> 0" by simp
        from jr [OF r this] obtain c where "c < n" "Mk ! r ! c = 1" by blast
        with nth [OF r this(1)] False show ?thesis by auto
      qed
    qed
    have b: "\<forall>c<n. cc[j := 1] ! c \<noteq> 0 \<longrightarrow> (\<exists>r<n. ?M ! r ! c = 1)"
    proof (intro allI impI)
      fix c assume c: "c < n" and h: "cc[j := 1] ! c \<noteq> 0"
      show "\<exists>r<n. ?M ! r ! c = 1"
      proof (cases "c = j")
        case True
        with nth [OF i c] i show ?thesis by auto
      next
        case False
        with h ccn [OF c] have "cc ! c \<noteq> 0" by simp
        from jc [OF c this] obtain r where "r < n" "Mk ! r ! c = 1" by blast
        with nth [OF this(1) c] False show ?thesis by auto
      qed
    qed
    have p: "\<forall>r<n. \<forall>c<n. (r < i \<or> r = i \<and> c < Suc j) \<and> m ! r ! c = 0
                \<longrightarrow> rc[i := 1] ! r \<noteq> 0 \<or> cc[j := 1] ! c \<noteq> 0"
    proof (intro allI impI)
      fix r c assume bd: "r < n" "c < n" and h: "(r < i \<or> r = i \<and> c < Suc j) \<and> m ! r ! c = 0"
      show "rc[i := 1] ! r \<noteq> 0 \<or> cc[j := 1] ! c \<noteq> 0"
      proof (cases "r = i \<or> c = j")
        case True
        then show ?thesis using rcn [OF bd(1)] ccn [OF bd(2)] by auto
      next
        case False
        with h have "r < i \<or> r = i \<and> c < j" by auto
        from pr [OF bd this] h False show ?thesis using rcn [OF bd(1)] ccn [OF bd(2)] by auto
      qed
    qed
    from inv' res st have "step2_inv n (?M, rc[i := 1], cc[j := 1])" by simp
    with a b p res show ?thesis by (simp add: step2_done_def)
  qed
qed

lemma step2_row_done:
  assumes d: "step2_done n m i 0 st" and i: "i < n"
  shows "step2_done n m (Suc i) 0 (fold (step2_cell m i) [0..<n] st)"
proof -
  have "step2_done n m i n (fold (step2_cell m i) [0..<n] st)"
  proof (rule fold_upt_inv [where P = "\<lambda>j. step2_done n m i j"])
    show "step2_done n m i 0 st" by (rule d)
  next
    fix j st' assume "j < n" "step2_done n m i j st'"
    then show "step2_done n m i (Suc j) (step2_cell m i j st')"
      using step2_cell_done i by blast
  qed
  then show ?thesis
    by (cases "fold (step2_cell m i) [0..<n] st") (auto simp: step2_done_def less_Suc_eq)
qed

lemma step2_maximal:
  assumes "length m = n" "square n Mk" "length rc = n" "length cc = n"
    and "\<forall>r<n. \<forall>c<n. Mk ! r ! c = 0" and "\<forall>r<n. rc ! r = 0" and "\<forall>c<n. cc ! c = 0"
    and "step2 m Mk rc cc = (Mk', rc', cc', st)"
  shows "\<forall>r<n. \<forall>c<n. m ! r ! c = 0 \<longrightarrow> (\<exists>c'<n. Mk' ! r ! c' = 1) \<or> (\<exists>r'<n. Mk' ! r' ! c = 1)"
proof -
  let ?res = "fold (\<lambda>r. fold (step2_cell m r) [0..<n]) [0..<n] (Mk, rc, cc)"
  have init: "step2_done n m 0 0 (Mk, rc, cc)"
    using assms(2-7) by (simp add: step2_done_def step2_inv_def no_primes_def independent_def)
  have "step2_done n m n 0 ?res"
  proof (rule fold_upt_inv [where P = "\<lambda>i. step2_done n m i 0"])
    show "step2_done n m 0 0 (Mk, rc, cc)" by (rule init)
  next
    fix i st' assume "i < n" "step2_done n m i 0 st'"
    then show "step2_done n m (Suc i) 0 (fold (step2_cell m i) [0..<n] st')"
      using step2_row_done by blast
  qed
  moreover obtain M2 rc2 cc2 where r: "?res = (M2, rc2, cc2)" by (cases ?res)
  ultimately have jr: "\<And>r. r < n \<Longrightarrow> rc2 ! r \<noteq> 0 \<Longrightarrow> \<exists>c<n. M2 ! r ! c = 1"
    and jc: "\<And>c. c < n \<Longrightarrow> cc2 ! c \<noteq> 0 \<Longrightarrow> \<exists>r<n. M2 ! r ! c = 1"
    and pr: "\<And>r c. r < n \<Longrightarrow> c < n \<Longrightarrow> m ! r ! c = 0 \<Longrightarrow> rc2 ! r \<noteq> 0 \<or> cc2 ! c \<noteq> 0"
    by (simp_all add: step2_done_def)
  have M': "Mk' = M2" using assms(1,8) r by (simp add: step2_def Let_def)
  show ?thesis
  proof (intro allI impI)
    fix r c assume b: "r < n" "c < n" and z: "m ! r ! c = 0"
    from pr [OF b z] show "(\<exists>c'<n. Mk' ! r ! c' = 1) \<or> (\<exists>r'<n. Mk' ! r' ! c = 1)"
      using jr [OF b(1)] jc [OF b(2)] M' by blast
  qed
qed


text \<open>Independent starred cells such that every cell has a starred cell in its row or in
  its column reach every column.\<close>

lemma maximal_full:
  assumes ind: "independent n Mk"
    and mx: "\<forall>r<n. \<forall>c<n. (\<exists>c'<n. Mk ! r ! c' = 1) \<or> (\<exists>r'<n. Mk ! r' ! c = 1)"
  shows "\<forall>c<n. \<exists>r<n. Mk ! r ! c = 1"
proof (rule ccontr)
  assume "\<not> (\<forall>c<n. \<exists>r<n. Mk ! r ! c = 1)"
  then obtain c0 where c0: "c0 < n" "\<And>r. r < n \<Longrightarrow> Mk ! r ! c0 \<noteq> 1" by blast
  have cols: "\<And>a a' b. a < n \<Longrightarrow> a' < n \<Longrightarrow> b < n \<Longrightarrow> Mk ! a ! b = 1 \<Longrightarrow> Mk ! a' ! b = 1
      \<Longrightarrow> a = a'"
    using ind unfolding independent_def by blast
  have "\<forall>r<n. \<exists>c<n. Mk ! r ! c = 1" using mx c0 by blast
  then obtain f where f: "\<And>r. r < n \<Longrightarrow> f r < n \<and> Mk ! r ! f r = 1" by metis
  have inj: "inj_on f {..<n}"
  proof (rule inj_onI)
    fix r r' assume "r \<in> {..<n}" "r' \<in> {..<n}" "f r = f r'"
    then show "r = r'" using f [of r] f [of r'] cols [of r r' "f r"] by simp
  qed
  have "f ` {..<n} \<subseteq> {..<n}" using f by auto
  moreover have "card (f ` {..<n}) = card {..<n}" using inj by (rule card_image)
  ultimately have "f ` {..<n} = {..<n}" by (simp add: card_subset_eq)
  with c0(1) obtain r where "r < n" "f r = c0" by (metis imageE lessThan_iff)
  with f [of r] c0(2) [of r] show False by simp
qed

subsection \<open>Inputs without columns\<close>

lemma min_element_replicate: "0 < n \<Longrightarrow> min_element (replicate n a) = a"
  by (simp add: min_element_Min)

lemma step1_sentinel:
  assumes "0 < n"
  shows "step1 (replicate n (replicate n T_max)) = (replicate n (replicate n 0), 2)"
  using assms by (simp add: step1_def min_element_replicate T_max_def wrapT_def)

lemma handle_negatives_no_columns:
  "handle_negatives (replicate R []) allow = Inr (replicate R [])"
proof -
  have "fold (\<lambda>elem m. fold (\<lambda>num m'. min m' num) elem m) (replicate R []) T_max = T_max"
    by (induction R) simp_all
  then show ?thesis by (simp add: handle_negatives_def T_max_def)
qed

lemma pad_matrix_no_columns:
  "0 < R \<Longrightarrow> pad_matrix (replicate R []) = replicate R (replicate R T_max)"
  by (simp add: pad_matrix_def resize_def)

lemma output_solution_no_columns:
  "0 < R \<Longrightarrow> output_solution (replicate R []) Mk = Inr 0"
  by (simp add: output_solution_def)

text \<open>On the padded matrix of an input without columns, step 1 empties the matrix, step 2
  stars a zero in every column and step 3 ends the loop.\<close>

lemma run_sentinel:
  assumes n: "0 < n"
  shows "\<exists>Mk cc. run rows cols
            \<lparr>matrix = replicate n (replicate n T_max), M = replicate n (replicate n 0),
             RowCover = replicate n 0, ColCover = replicate n 0,
             path_row_0 = r0, path_col_0 = c0, path = p, step = 1\<rparr>
          = Some (Inr \<lparr>matrix = replicate n (replicate n 0),
                       M = take rows (map (resize cols 0) Mk),
                       RowCover = replicate n 0, ColCover = cc,
                       path_row_0 = r0, path_col_0 = c0, path = p, step = 7\<rparr>)
          \<and> length Mk = n \<and> independent n Mk \<and> (\<forall>c<n. \<exists>r<n. Mk ! r ! c = 1)"
proof -
  let ?Z = "replicate n (replicate n (0::int))"
  let ?z = "replicate n (0::int)"
  obtain M2 rc2 cc2 st2 where s2: "step2 ?Z ?Z ?z ?z = (M2, rc2, cc2, st2)"
    by (cases "step2 ?Z ?Z ?z ?z")
  have sq: "square n ?Z" by (simp add: square_def)
  have zero: "\<forall>r<n. \<forall>c<n. ?Z ! r ! c = 0" by simp
  have r2: "st2 = 3 \<and> square n M2 \<and> no_primes n M2 \<and> independent n M2
            \<and> rc2 = ?z \<and> cc2 = ?z"
    by (rule step2_result [OF _ sq _ _ zero s2]) simp_all
  have "\<forall>r<n. \<forall>c<n. ?Z ! r ! c = 0 \<longrightarrow> (\<exists>c'<n. M2 ! r ! c' = 1) \<or> (\<exists>r'<n. M2 ! r' ! c = 1)"
    by (rule step2_maximal [OF _ sq _ _ zero _ _ s2]) simp_all
  with zero have "\<forall>r<n. \<forall>c<n. (\<exists>c'<n. M2 ! r ! c' = 1) \<or> (\<exists>r'<n. M2 ! r' ! c = 1)"
    by blast
  with r2 have full: "\<forall>c<n. \<exists>r<n. M2 ! r ! c = 1" using maximal_full by blast
  obtain cc3 st3 where s3: "step3 M2 ?z = (cc3, st3)" by (cases "step3 M2 ?z")
  from r2 have len: "length M2 = n" by (simp add: square_def)
  have "st3 = 7 \<longleftrightarrow> (\<forall>c<n. \<exists>r<n. M2 ! r ! c = 1)"
    using step3_result [OF len _ _ s3] by simp
  with full have st3: "st3 = 7" by simp
  have "run rows cols
            \<lparr>matrix = replicate n (replicate n T_max), M = ?Z,
             RowCover = ?z, ColCover = ?z,
             path_row_0 = r0, path_col_0 = c0, path = p, step = 1\<rparr>
        = run rows cols
            \<lparr>matrix = ?Z, M = ?Z, RowCover = ?z, ColCover = ?z,
             path_row_0 = r0, path_col_0 = c0, path = p, step = 2\<rparr>"
    by (subst run.simps) (simp add: step1_sentinel [OF n])
  also have "\<dots> = run rows cols
            \<lparr>matrix = ?Z, M = M2, RowCover = ?z, ColCover = ?z,
             path_row_0 = r0, path_col_0 = c0, path = p, step = 3\<rparr>"
    using s2 r2 by (subst run.simps) simp
  also have "\<dots> = run rows cols
            \<lparr>matrix = ?Z, M = M2, RowCover = ?z, ColCover = cc3,
             path_row_0 = r0, path_col_0 = c0, path = p, step = 7\<rparr>"
    using s3 st3 by (subst run.simps) simp
  also have "\<dots> = Some (Inr \<lparr>matrix = ?Z, M = take rows (map (resize cols 0) M2),
             RowCover = ?z, ColCover = cc3,
             path_row_0 = r0, path_col_0 = c0, path = p, step = 7\<rparr>)"
    by (subst run.simps) simp
  finally show ?thesis using r2 full len by blast
qed

lemma hungarian_state_no_columns:
  assumes R: "0 < R"
  shows "\<exists>s. hungarian_state (replicate R []) allow = Some (Inr s) \<and> step s = 7
             \<and> matrix s = replicate R (replicate R 0) \<and> M s = replicate R []"
proof -
  have ex: "\<not> list_ex (\<lambda>row. length row > 0) (replicate R ([] :: int list))"
    by (simp add: list_ex_iff)
  have hd: "length (replicate R ([] :: int list) ! 0) = 0" using R by simp
  have hs: "hungarian_state (replicate R []) allow =
      run R 0 \<lparr>matrix = replicate R (replicate R T_max), M = replicate R (replicate R 0),
               RowCover = replicate R 0, ColCover = replicate R 0,
               path_row_0 = 0, path_col_0 = 0,
               path = replicate (R + 1) (0, 0), step = 1\<rparr>"
    unfolding hungarian_state_def Let_def hd
    using R ex by (simp add: handle_negatives_no_columns pad_matrix_no_columns [OF R])
  from run_sentinel [OF R, of R 0 0 0 "replicate (R + 1) (0, 0)"]
  obtain Mk cc where run: "run R 0
            \<lparr>matrix = replicate R (replicate R T_max), M = replicate R (replicate R 0),
             RowCover = replicate R 0, ColCover = replicate R 0,
             path_row_0 = 0, path_col_0 = 0, path = replicate (R + 1) (0, 0), step = 1\<rparr>
          = Some (Inr \<lparr>matrix = replicate R (replicate R 0),
                       M = take R (map (resize 0 0) Mk),
                       RowCover = replicate R 0, ColCover = cc,
                       path_row_0 = 0, path_col_0 = 0, path = replicate (R + 1) (0, 0),
                       step = 7\<rparr>)"
    and len: "length Mk = R"
    by blast
  have "map (resize 0 (0::int)) Mk = replicate (length Mk) []"
    by (induction Mk) (simp_all add: resize_def)
  with len have "take R (map (resize 0 0) Mk) = replicate R []" by simp
  with hs run show ?thesis by simp
qed

text \<open>
  Claim C8: a zero-sized input (zero rows, or rows with zero columns) is rejected at once
  with the EmptyMatrix error; no step of the algorithm runs and no result is returned. For
  the input of two rows without columns the solver raises nothing: the input is padded to
  two rows of two sentinel values, steps 1 to 3 run, the loop ends in step 7 with both
  columns covered, and the cost 0 is returned.
\<close>

theorem no_columns_not_rejected:
  "hungarian [[], []] False = Some (Inr 0) \<and>
   hungarian_state [[], []] False =
     Some (Inr \<lparr>matrix = [[0, 0], [0, 0]], M = [[], []], RowCover = [0, 0],
                ColCover = [1, 1], path_row_0 = 0, path_col_0 = 0,
                path = [(0, 0), (0, 0), (0, 0)], step = 7\<rparr>)"
  by code_simp

text \<open>
  Claim C8, amended: an input of \<open>R \<ge> 1\<close> rows with zero columns is not rejected
  and raises no error, whether negative values are allowed or not: it is padded to
  \<open>R\<close> rows of \<open>R\<close> sentinel values, step 1 reduces them to zeros, the loop ends
  in step 7, the mask cut back to the size of the input has \<open>R\<close> empty rows, and the
  returned cost is 0.
\<close>

theorem no_columns_cost_zero:
  assumes "0 < R"
  shows "hungarian (replicate R []) allow_negatives = Some (Inr 0) \<and>
         (\<exists>s. hungarian_state (replicate R []) allow_negatives = Some (Inr s) \<and> step s = 7
              \<and> matrix s = replicate R (replicate R 0) \<and> M s = replicate R [])"
proof -
  from hungarian_state_no_columns [OF assms, of allow_negatives]
  obtain s where s: "hungarian_state (replicate R []) allow_negatives = Some (Inr s)"
    "step s = 7" "matrix s = replicate R (replicate R 0)" "M s = replicate R []"
    by blast
  then have "hungarian (replicate R []) allow_negatives = Some (Inr 0)"
    using assms by (simp add: hungarian_def output_solution_no_columns)
  with s show ?thesis by blast
qed

text \<open>The theorem for three rows.\<close>

theorem no_columns_cost_zero_witness:
  "0 < (3::nat) \<and> hungarian [[], [], []] True = Some (Inr 0) \<and>
   (\<exists>s. hungarian_state [[], [], []] True = Some (Inr s) \<and> step s = 7
        \<and> matrix s = [[0, 0, 0], [0, 0, 0], [0, 0, 0]] \<and> M s = [[], [], []])"
  using no_columns_cost_zero [of 3 True] by (simp add: numeral_3_eq_3)

section \<open>Concrete runs\<close>

text \<open>
  Claim C10: \<open>hungarian\<close> applied to \<open>[[25,40,35],[40,60,35],[20,40,25]]\<close> returns an
  optimal cost of 60. The run of the code returns another value, so the claim as stated is
  false.
\<close>

theorem hungarian_example_not_60:
  "hungarian [[25, 40, 35], [40, 60, 35], [20, 40, 25]] True \<noteq> Some (Inr 60)"
  by code_simp

text \<open>
  Claim C10, amended: on \<open>[[25,40,35],[40,60,35],[20,40,25]]\<close> the solver returns 95
  (rows 0, 1, 2 assigned to columns 1, 2, 0: 40 + 35 + 20).
\<close>

theorem hungarian_example_95:
  "hungarian [[25, 40, 35], [40, 60, 35], [20, 40, 25]] True = Some (Inr 95)"
  by code_simp

text \<open>
  Claim C5: the alternating path of step 5 fits the path buffer of \<open>N + 1\<close> rows. On the
  3 by 3 matrix \<open>[[0,1,0],[0,0,1],[1,0,1]]\<close> steps 1 to 3 star the cells (0,0) and (1,1);
  step 4 primes (0,2), (1,0) and (2,1) and hands (2,1) to step 5, whose path
  (2,1), (1,1), (1,0), (0,0), (0,2) has five cells: the fifth write goes to
  \<open>path[4]\<close> of a buffer of four rows.
\<close>

theorem step5_path_buffer_overrun:
  "step4 [[0, 1, 0], [0, 0, 1], [1, 0, 1]] [[1, 0, 0], [0, 1, 0], [0, 0, 0]]
         [0, 0, 0] [1, 1, 0] 0 0
     = Some ([[1, 0, 2], [2, 1, 0], [0, 2, 0]], [1, 1, 0], [0, 0, 0], 2, 1, 5)
   \<and> step5 (replicate (3 + 1) (0, 0)) 2 1 [[1, 0, 2], [2, 1, 0], [0, 2, 0]]
         [1, 1, 0] [0, 0, 0] = Inl OutOfBounds
   \<and> step5_loop [[1, 0, 2], [2, 1, 0], [0, 2, 0]] ((replicate 5 (0, 0))[0 := (2, 1)]) 1 (- 1)
     = Inr ([(2, 1), (1, 1), (1, 0), (0, 0), (0, 2)], 5)"
  by code_simp

text \<open>
  Claim C4: every solve call on a valid matrix reaches step 7. On
  \<open>[[0,1,0],[0,0,1],[1,0,1]]\<close> the loop of the solver ends in step 5 with the write
  outside the path buffer, not in step 7.
\<close>

theorem hungarian_state_overrun:
  "hungarian_state [[0, 1, 0], [0, 0, 1], [1, 0, 1]] True = Some (Inl OutOfBounds)"
  by code_simp

text \<open>
  Claim C1: \<open>hungarian\<close> returns the cost of an optimal assignment. On
  \<open>[[0,1,0],[0,0,1],[1,0,1]]\<close>, whose optimal assignment (columns 2, 0, 1) costs 0, the
  solver returns no cost: the run ends with the write outside the path buffer.
\<close>

theorem hungarian_overrun:
  "hungarian [[0, 1, 0], [0, 0, 1], [1, 0, 1]] True = Some (Inl OutOfBounds)"
  by code_simp

end
